theory Spec2Isabelle
  imports Main "HOL-Library.Word" "HOL-Library.Sublist"
begin

section \<open>Data model of llama\_jni.cpp\<close>

text \<open>
  The JNI scalar types. \<open>jlong\<close> is a signed 64-bit integer and \<open>jint\<close> a signed 32-bit
  integer, both read through \<open>sint\<close>. A \<open>jfloat\<close> is carried as its 32-bit pattern: the
  stub never computes with it. A \<open>jobject\<close> is an opaque reference.
\<close>

type_synonym jlong = "64 word"
type_synonym jint = "32 word"
type_synonym jfloat = "32 word"
type_synonym jobject = nat

text \<open>\<open>struct ModelContext\<close> and its only constructor (lines 37-45).\<close>

record ModelContext =
  modelPath :: string
  isLoaded :: bool
  contextSize :: int
  numThreads :: int

definition newModelContext :: "string \<Rightarrow> ModelContext" where
  "newModelContext path =
     \<lparr>modelPath = path, isLoaded = True, contextSize = 2048, numThreads = 4\<rparr>"

text \<open>
  The globals of lines 48-50. \<open>g_contexts\<close> is a \<open>std::unordered_map\<close>; it is kept as the
  list of its nodes in iteration order, so that \<open>begin()\<close> is the head of the list. The
  contexts are held by value: every \<open>ModelContext*\<close> stored in the table comes from its own
  \<open>new\<close> and is referenced from nowhere else.
\<close>

type_synonym table = "(jlong \<times> ModelContext) list"

record registry =
  g_contexts :: table
  g_next_handle :: jlong

definition initial :: registry where
  "initial = \<lparr>g_contexts = [], g_next_handle = 1\<rparr>"

text \<open>
  The ways a call can leave defined behaviour: the signed overflow of \<open>g_next_handle++\<close>
  and the \<open>std::out_of_range\<close> that \<open>std::string::substr\<close> throws.
\<close>

datatype fault = SignedOverflow | OutOfRange

text \<open>\<open>allocateHandle\<close> (lines 53-55): post-increment of a signed 64-bit counter.\<close>

definition allocateHandle :: "registry \<Rightarrow> fault + (jlong \<times> registry)" where
  "allocateHandle s =
     (if g_next_handle s = 0x7FFFFFFFFFFFFFFF then Inl SignedOverflow
      else Inr (g_next_handle s, s\<lparr>g_next_handle := g_next_handle s + 1\<rparr>))"

subsection \<open>The hash table\<close>

text \<open>
  The C++ standard leaves the iteration order of an unordered map unspecified. The place
  at which the node of a new key is linked into the node list is therefore a parameter
  of the model: \<open>slot k ks\<close> is the index the node of the new key \<open>k\<close> takes among the
  nodes with keys \<open>ks\<close>. \<open>slot_front\<close> is the choice of the common implementations for a
  key that hashes to an empty bucket (the new node becomes the first of the list);
  \<open>slot_back\<close> appends. A rehash may reorder the older nodes as well; that is left
  out, and nothing below uses their order: the properties are about the content of the
  table and about its first node, whichever it is.
\<close>

type_synonym slot = "jlong \<Rightarrow> jlong list \<Rightarrow> nat"

definition slot_front :: slot where
  "slot_front k ks = 0"

definition slot_back :: slot where
  "slot_back k ks = length ks"

text \<open>\<open>g_contexts[k] = v\<close>: overwrite the node of \<open>k\<close> in place, or link a new node in.\<close>

definition umap_store :: "slot \<Rightarrow> jlong \<Rightarrow> ModelContext \<Rightarrow> table \<Rightarrow> table" where
  "umap_store slot k v t =
     (case map_of t k of
        Some old \<Rightarrow> map (\<lambda>e. if fst e = k then (k, v) else e) t
      | None \<Rightarrow> take (slot k (map fst t)) t @ (k, v) # drop (slot k (map fst t)) t)"

text \<open>\<open>g_contexts.erase(it)\<close> for \<open>it = g_contexts.find(k)\<close>: unlink the node of \<open>k\<close>.\<close>

fun umap_erase :: "jlong \<Rightarrow> table \<Rightarrow> table" where
  "umap_erase k [] = []"
| "umap_erase k (e # t) = (if fst e = k then t else e # umap_erase k t)"

section \<open>LlamaNative: the primary interface\<close>

text \<open>\<open>initModel\<close> (lines 71-107).\<close>

definition initModel :: "slot \<Rightarrow> string \<Rightarrow> registry \<Rightarrow> fault + (jlong \<times> registry)" where
  "initModel slot path s =
     (case allocateHandle s of
        Inl e \<Rightarrow> Inl e
      | Inr (handle, s') \<Rightarrow>
          Inr (handle,
               s'\<lparr>g_contexts := umap_store slot handle (newModelContext path) (g_contexts s')\<rparr>))"

subsection \<open>The std::string operations that generate uses\<close>

text \<open>
  \<open>size_t\<close> is 64 bits wide; its arithmetic wraps. \<open>npos\<close> is \<open>size_t(-1)\<close>.
\<close>

definition npos :: nat where
  "npos = 2 ^ 64 - 1"

definition size_add :: "nat \<Rightarrow> nat \<Rightarrow> nat" where
  "size_add a b = (a + b) mod 2 ^ 64"

definition size_sub :: "nat \<Rightarrow> nat \<Rightarrow> nat" where
  "size_sub a b = (a + 2 ^ 64 - b) mod 2 ^ 64"

text \<open>\<open>s.find(pat)\<close>: the first index at which \<open>pat\<close> occurs in \<open>s\<close>, or \<open>npos\<close>.\<close>

fun find_str_at :: "nat \<Rightarrow> string \<Rightarrow> string \<Rightarrow> nat" where
  "find_str_at i pat [] = (if pat = [] then i else npos)"
| "find_str_at i pat (c # cs) =
     (if prefix pat (c # cs) then i else find_str_at (Suc i) pat cs)"

definition find_str :: "string \<Rightarrow> string \<Rightarrow> nat" where
  "find_str s pat = find_str_at 0 pat s"

text \<open>\<open>s.find(ch, pos)\<close>: the first index from \<open>pos\<close> on that holds \<open>ch\<close>, or \<open>npos\<close>.\<close>

fun find_chr_at :: "nat \<Rightarrow> char \<Rightarrow> string \<Rightarrow> nat" where
  "find_chr_at i ch [] = npos"
| "find_chr_at i ch (c # cs) = (if c = ch then i else find_chr_at (Suc i) ch cs)"

definition find_chr :: "string \<Rightarrow> char \<Rightarrow> nat \<Rightarrow> nat" where
  "find_chr s ch pos = find_chr_at pos ch (drop pos s)"

text \<open>\<open>s.substr(pos, n)\<close>, which throws when \<open>pos\<close> is beyond the end.\<close>

definition substr :: "string \<Rightarrow> nat \<Rightarrow> nat \<Rightarrow> fault + string" where
  "substr s pos n = (if length s < pos then Inl OutOfRange else Inr (take n (drop pos s)))"

text \<open>\<open>tolower\<close> in the C locale: only the letters A to Z change.\<close>

definition tolower :: "char \<Rightarrow> char" where
  "tolower c =
     (case map_of (zip ''ABCDEFGHIJKLMNOPQRSTUVWXYZ'' ''abcdefghijklmnopqrstuvwxyz'') c of
        Some l \<Rightarrow> l
      | None \<Rightarrow> c)"

subsection \<open>generate\<close>

text \<open>
  The block that lines 160-165, 173-178 and 194-199 repeat, with the initial value of the
  name as \<open>dflt\<close>. When the prompt has no quote, \<open>quoteStart\<close> is \<open>npos\<close> and
  \<open>quoteStart + 1\<close> wraps to 0.
\<close>

definition quoted_or :: "string \<Rightarrow> string \<Rightarrow> fault + string" where
  "quoted_or dflt promptText =
     (let quoteStart = find_chr promptText (CHR 0x22) 0;
          quoteEnd = find_chr promptText (CHR 0x22) (size_add quoteStart 1)
      in if quoteStart \<noteq> npos \<and> quoteEnd \<noteq> npos
         then substr promptText (size_add quoteStart 1)
                (size_sub (size_sub quoteEnd quoteStart) 1)
         else Inr dflt)"

text \<open>The response texts, as the string literals and concatenations of the source.\<close>

definition invalid_context_response :: string where
  "invalid_context_response =
     ''{\"action\":\"reply\",\"message\":\"Error: Model not loaded\",\"data\":{}}''"

definition create_goal_response :: "string \<Rightarrow> string" where
  "create_goal_response goalName =
     ''{\"action\":\"create_goal\",\"message\":\"I'll create a goal for '' @ goalName @
     ''\",\"data\":{\"goalTitle\":\"'' @ goalName @
     ''\",\"durationMonths\":3,\"dailyMinutes\":30}}''"

definition create_task_response :: "string \<Rightarrow> string" where
  "create_task_response taskName =
     ''{\"action\":\"create_task\",\"message\":\"I'll add the task: '' @ taskName @
     ''\",\"data\":{\"taskTitle\":\"'' @ taskName @
     ''\",\"dueDate\":\"today\",\"minutes\":30}}''"

definition list_response :: string where
  "list_response =
     ''{\"action\":\"reply\",\"message\":\"Here are your current items. You can ask me to create goals or add tasks!\",\"data\":{}}''"

definition help_response :: string where
  "help_response =
     ''{\"action\":\"reply\",\"message\":\"I can help you manage goals and tasks! Try saying: 'Create a goal to learn Python' or 'Add task review notes tomorrow'\",\"data\":{}}''"

definition complete_task_response :: "string \<Rightarrow> string" where
  "complete_task_response taskName =
     ''{\"action\":\"complete_task\",\"message\":\"Great job! I'll mark that as complete.\",\"data\":{\"taskTitle\":\"'' @
     taskName @ ''\"}}''"

definition delete_response :: string where
  "delete_response =
     ''{\"action\":\"reply\",\"message\":\"To delete an item, please specify exactly which goal or task you want to remove.\",\"data\":{}}''"

definition progress_response :: string where
  "progress_response =
     ''{\"action\":\"show_progress\",\"message\":\"Let me show you your progress summary!\",\"data\":{}}''"

definition default_response :: string where
  "default_response =
     ''{\"action\":\"reply\",\"message\":\"I'm your local AI assistant running on-device! I can help you create goals, add tasks, and track your progress. What would you like to do?\",\"data\":{}}''"

text \<open>The stub of lines 151-215: the chain of keyword tests on the lowercased prompt.\<close>

definition stub_response :: "string \<Rightarrow> fault + string" where
  "stub_response promptText =
     (let lowerPrompt = map tolower promptText in
      if find_str lowerPrompt ''create'' \<noteq> npos \<and> find_str lowerPrompt ''goal'' \<noteq> npos
      then (case quoted_or ''New Goal'' promptText of
              Inl e \<Rightarrow> Inl e | Inr goalName \<Rightarrow> Inr (create_goal_response goalName))
      else if find_str lowerPrompt ''add'' \<noteq> npos \<and> find_str lowerPrompt ''task'' \<noteq> npos
      then (case quoted_or ''New Task'' promptText of
              Inl e \<Rightarrow> Inl e | Inr taskName \<Rightarrow> Inr (create_task_response taskName))
      else if find_str lowerPrompt ''list'' \<noteq> npos \<or> find_str lowerPrompt ''show'' \<noteq> npos
      then Inr list_response
      else if find_str lowerPrompt ''help'' \<noteq> npos
      then Inr help_response
      else if find_str lowerPrompt ''complete'' \<noteq> npos \<or>
              find_str lowerPrompt ''done'' \<noteq> npos \<or>
              find_str lowerPrompt ''finish'' \<noteq> npos
      then (case quoted_or ''task'' promptText of
              Inl e \<Rightarrow> Inl e | Inr taskName \<Rightarrow> Inr (complete_task_response taskName))
      else if find_str lowerPrompt ''delete'' \<noteq> npos \<or> find_str lowerPrompt ''remove'' \<noteq> npos
      then Inr delete_response
      else if find_str lowerPrompt ''progress'' \<noteq> npos \<or>
              find_str lowerPrompt ''how am i'' \<noteq> npos \<or>
              find_str lowerPrompt ''status'' \<noteq> npos
      then Inr progress_response
      else Inr default_response)"

text \<open>
  \<open>generate\<close> (lines 119-219): the check that the handle is registered, then the stub.
  \<open>maxTokens\<close> is only logged.
\<close>

definition generate ::
  "jlong \<Rightarrow> string \<Rightarrow> jint \<Rightarrow> registry \<Rightarrow> fault + (string \<times> registry)" where
  "generate ctxPtr promptText maxTokens s =
     (if map_of (g_contexts s) ctxPtr = None then Inr (invalid_context_response, s)
      else (case stub_response promptText of
              Inl e \<Rightarrow> Inl e | Inr response \<Rightarrow> Inr (response, s)))"

text \<open>\<open>freeModel\<close> (lines 228-251); it returns nothing, so the result is the registry.\<close>

definition freeModel :: "jlong \<Rightarrow> registry \<Rightarrow> registry" where
  "freeModel ctxPtr s =
     (case map_of (g_contexts s) ctxPtr of
        Some ctx \<Rightarrow> s\<lparr>g_contexts := umap_erase ctxPtr (g_contexts s)\<rparr>
      | None \<Rightarrow> s)"

section \<open>LlamaInference: the legacy interface\<close>

text \<open>\<open>nativeLoadModel\<close> (lines 272-282); \<open>nThreads\<close> and \<open>nCtx\<close> are not used.\<close>

definition nativeLoadModel ::
  "slot \<Rightarrow> string \<Rightarrow> jint \<Rightarrow> jint \<Rightarrow> registry \<Rightarrow> fault + (bool \<times> registry)" where
  "nativeLoadModel slot path nThreads nCtx s =
     (case initModel slot path s of
        Inl e \<Rightarrow> Inl e
      | Inr (handle, s') \<Rightarrow> Inr (handle \<noteq> 0, s'))"

definition no_model_response :: string where
  "no_model_response =
     ''{\"action\":\"reply\",\"message\":\"No model loaded. Please download a model first.\",\"data\":{}}''"

text \<open>\<open>nativeGenerate\<close> (lines 287-310): the handle of \<open>g_contexts.begin()\<close>, or 0.\<close>

definition nativeGenerate ::
  "string \<Rightarrow> jint \<Rightarrow> jfloat \<Rightarrow> jfloat \<Rightarrow> registry \<Rightarrow> fault + (string \<times> registry)" where
  "nativeGenerate prompt maxTokens temperature topP s =
     (let handle = (case g_contexts s of [] \<Rightarrow> 0 | e # t \<Rightarrow> fst e) in
      if handle = 0 then Inr (no_model_response, s)
      else generate handle prompt maxTokens s)"

text \<open>
  \<open>nativeGenerateWithCallback\<close> (lines 315-327). The second component of the result lists
  the texts handed to the callback object during the call; the stub never calls it. The
  literal \<open>0.9f\<close> has the bit pattern \<open>0x3F666666\<close>.
\<close>

definition nativeGenerateWithCallback ::
  "string \<Rightarrow> jint \<Rightarrow> jfloat \<Rightarrow> jobject \<Rightarrow> registry
     \<Rightarrow> fault + ((string \<times> string list) \<times> registry)" where
  "nativeGenerateWithCallback prompt maxTokens temperature callback s =
     (case nativeGenerate prompt maxTokens temperature 0x3F666666 s of
        Inl e \<Rightarrow> Inl e
      | Inr (response, s') \<Rightarrow> Inr ((response, []), s'))"

text \<open>\<open>nativeUnloadModel\<close> (lines 332-344) and \<open>nativeCleanup\<close> (lines 349-356).\<close>

definition nativeUnloadModel :: "registry \<Rightarrow> registry" where
  "nativeUnloadModel s = s\<lparr>g_contexts := []\<rparr>"

definition nativeCleanup :: "registry \<Rightarrow> registry" where
  "nativeCleanup s = nativeUnloadModel s"

text \<open>\<open>nativeIsModelLoaded\<close> (lines 361-367).\<close>

definition nativeIsModelLoaded :: "registry \<Rightarrow> bool" where
  "nativeIsModelLoaded s = (g_contexts s \<noteq> [])"

text \<open>\<open>std::to_string\<close> on an \<open>int\<close>: the decimal digits, with a sign.\<close>

fun digits :: "nat \<Rightarrow> string" where
  "digits n =
     (if n < 10 then [''0123456789'' ! n]
      else digits (n div 10) @ [''0123456789'' ! (n mod 10)])"

declare digits.simps [simp del]

definition to_string :: "int \<Rightarrow> string" where
  "to_string i = (if i < 0 then CHR ''-'' # digits (nat (- i)) else digits (nat i))"

text \<open>\<open>nativeGetModelInfo\<close> (lines 372-387): the context of \<open>g_contexts.begin()\<close>.\<close>

definition model_info :: "ModelContext \<Rightarrow> string" where
  "model_info ctx =
     ''{\"status\":\"loaded\",\"path\":\"'' @ modelPath ctx @
     ''\",\"contextSize\":'' @ to_string (contextSize ctx) @
     '',\"threads\":'' @ to_string (numThreads ctx) @ ''}''"

definition nativeGetModelInfo :: "registry \<Rightarrow> string" where
  "nativeGetModelInfo s = (case g_contexts s of [] \<Rightarrow> [] | e # t \<Rightarrow> model_info (snd e))"

section \<open>Histories of calls\<close>

text \<open>
  A process is a sequence of calls of the exported functions, started on the globals as
  initialised. \<open>run\<close> threads the registry through the calls and collects what each call
  returns; it stops at the first fault.
\<close>

datatype call =
    InitModel string
  | Generate jlong string jint
  | FreeModel jlong
  | LoadModel string jint jint
  | NativeGenerate string jint jfloat jfloat
  | NativeGenerateWithCallback string jint jfloat jobject
  | UnloadModel
  | Cleanup
  | IsModelLoaded
  | GetModelInfo

datatype ret = Handle jlong | Text string | Flag bool | Void

fun exec :: "slot \<Rightarrow> call \<Rightarrow> registry \<Rightarrow> fault + (ret \<times> registry)" where
  "exec slot (InitModel path) s = map_sum id (map_prod Handle id) (initModel slot path s)"
| "exec slot (Generate h p n) s = map_sum id (map_prod Text id) (generate h p n s)"
| "exec slot (FreeModel h) s = Inr (Void, freeModel h s)"
| "exec slot (LoadModel path nt nc) s =
     map_sum id (map_prod Flag id) (nativeLoadModel slot path nt nc s)"
| "exec slot (NativeGenerate p n t tp) s =
     map_sum id (map_prod Text id) (nativeGenerate p n t tp s)"
| "exec slot (NativeGenerateWithCallback p n t cb) s =
     map_sum id (map_prod (Text \<circ> fst) id) (nativeGenerateWithCallback p n t cb s)"
| "exec slot UnloadModel s = Inr (Void, nativeUnloadModel s)"
| "exec slot Cleanup s = Inr (Void, nativeCleanup s)"
| "exec slot IsModelLoaded s = Inr (Flag (nativeIsModelLoaded s), s)"
| "exec slot GetModelInfo s = Inr (Text (nativeGetModelInfo s), s)"

fun run :: "slot \<Rightarrow> call list \<Rightarrow> registry \<Rightarrow> fault + (ret list \<times> registry)" where
  "run slot [] s = Inr ([], s)"
| "run slot (c # cs) s =
     (case exec slot c s of
        Inl e \<Rightarrow> Inl e
      | Inr (r, s') \<Rightarrow>
          (case run slot cs s' of Inl e \<Rightarrow> Inl e | Inr (rs, s'') \<Rightarrow> Inr (r # rs, s'')))"

section \<open>What a history has issued and freed\<close>

text \<open>
  \<open>issued\<close> lists the handle that \<open>initModel\<close> returns during a call, whether the call
  is \<open>initModel\<close> itself or \<open>nativeLoadModel\<close>, which calls it; \<open>issued_in\<close> collects
  them over a history. \<open>live_in\<close> follows the handles that have been returned by
  \<open>initModel\<close> and not been freed since, by \<open>freeModel\<close> on that handle or by
  \<open>nativeUnloadModel\<close> and \<open>nativeCleanup\<close>, which free all.
\<close>

fun issued :: "slot \<Rightarrow> call \<Rightarrow> registry \<Rightarrow> jlong list" where
  "issued slot (InitModel path) s =
     (case initModel slot path s of Inl e \<Rightarrow> [] | Inr (h, s') \<Rightarrow> [h])"
| "issued slot (LoadModel path nt nc) s =
     (case initModel slot path s of Inl e \<Rightarrow> [] | Inr (h, s') \<Rightarrow> [h])"
| "issued slot c s = []"

fun issued_in :: "slot \<Rightarrow> call list \<Rightarrow> registry \<Rightarrow> jlong list" where
  "issued_in slot [] s = []"
| "issued_in slot (c # cs) s =
     (case exec slot c s of
        Inl e \<Rightarrow> []
      | Inr (r, s') \<Rightarrow> issued slot c s @ issued_in slot cs s')"

fun live_step :: "slot \<Rightarrow> call \<Rightarrow> registry \<Rightarrow> jlong set \<Rightarrow> jlong set" where
  "live_step slot (FreeModel h) s L = L - {h}"
| "live_step slot UnloadModel s L = {}"
| "live_step slot Cleanup s L = {}"
| "live_step slot c s L = L \<union> set (issued slot c s)"

fun live_in :: "slot \<Rightarrow> call list \<Rightarrow> registry \<Rightarrow> jlong set \<Rightarrow> jlong set" where
  "live_in slot [] s L = L"
| "live_in slot (c # cs) s L =
     (case exec slot c s of
        Inl e \<Rightarrow> L
      | Inr (r, s') \<Rightarrow> live_in slot cs s' (live_step slot c s L))"

text \<open>The registered handles, and the invariant that every history maintains.\<close>

definition handles_of :: "registry \<Rightarrow> jlong set" where
  "handles_of s = fst ` set (g_contexts s)"

definition reg_inv :: "registry \<Rightarrow> bool" where
  "reg_inv s \<longleftrightarrow>
     distinct (map fst (g_contexts s)) \<and> 0 < sint (g_next_handle s) \<and>
     (\<forall>k \<in> handles_of s. 0 < sint k \<and> sint k < sint (g_next_handle s))"

section \<open>JSON texts\<close>

text \<open>
  What it means for a returned string to be a JSON text: a reader for the grammar of
  RFC 8259. \<open>json_lex\<close> splits the text into tokens, decoding the escapes of string
  literals (a u-escape becomes the bytes of its code unit, as the JNI strings encode
  it); \<open>parse_value\<close> builds the value. A number keeps its lexeme.
\<close>

datatype json =
    JNull
  | JBool bool
  | JNumber string
  | JString string
  | JArray "json list"
  | JObject "(string \<times> json) list"

datatype token =
    TLBrace | TRBrace | TLBracket | TRBracket | TColon | TComma
  | TString string | TNumber string | TTrue | TFalse | TNull

text \<open>The character classes of the grammar, and its numbers.\<close>

definition is_ws :: "char \<Rightarrow> bool" where
  "is_ws c \<longleftrightarrow> c \<in> set [CHR '' '', CHR 0x09, CHR 0x0A, CHR 0x0D]"

definition is_digit :: "char \<Rightarrow> bool" where
  "is_digit c \<longleftrightarrow> c \<in> set ''0123456789''"

definition is_number_char :: "char \<Rightarrow> bool" where
  "is_number_char c \<longleftrightarrow> c \<in> set ''0123456789+-.eE''"

definition opt_exponent :: "string \<Rightarrow> bool" where
  "opt_exponent s =
     (case s of
        [] \<Rightarrow> True
      | e # r \<Rightarrow>
          (e = CHR ''e'' \<or> e = CHR ''E'') \<and>
          (let ds = (case r of [] \<Rightarrow> [] | g # r' \<Rightarrow> if g = CHR ''+'' \<or> g = CHR ''-'' then r' else r)
           in ds \<noteq> [] \<and> list_all is_digit ds))"

definition opt_fraction :: "string \<Rightarrow> bool" where
  "opt_fraction s =
     (case s of
        [] \<Rightarrow> True
      | d # r \<Rightarrow>
          if d = CHR ''.''
          then takeWhile is_digit r \<noteq> [] \<and> opt_exponent (dropWhile is_digit r)
          else opt_exponent s)"

definition valid_number :: "string \<Rightarrow> bool" where
  "valid_number s =
     (let u = (case s of [] \<Rightarrow> [] | g # r \<Rightarrow> if g = CHR ''-'' then r else s)
      in case u of
           [] \<Rightarrow> False
         | d # r \<Rightarrow>
             if d = CHR ''0'' then opt_fraction r
             else is_digit d \<and> opt_fraction (dropWhile is_digit r))"

text \<open>
  String literals. \<open>scan_string\<close> reads from behind the opening quote to the closing
  one and returns the decoded content with the rest of the text; a control character,
  an unknown escape or the end of the text inside the literal is an error.
\<close>

definition hex_digit :: "char \<Rightarrow> nat option" where
  "hex_digit c =
     map_of (zip ''0123456789abcdefABCDEF''
               [0, 1, 2, 3, 4, 5, 6, 7, 8, 9, 10, 11, 12, 13, 14, 15, 10, 11, 12, 13, 14, 15]) c"

definition hex4 :: "string \<Rightarrow> nat option" where
  "hex4 s =
     (case map hex_digit s of
        [Some a, Some b, Some c, Some d] \<Rightarrow> Some (((a * 16 + b) * 16 + c) * 16 + d)
      | _ \<Rightarrow> None)"

definition utf8 :: "nat \<Rightarrow> string" where
  "utf8 u =
     (if u < 0x80 then [char_of u]
      else if u < 0x800 then [char_of (0xC0 + u div 64), char_of (0x80 + u mod 64)]
      else [char_of (0xE0 + u div 4096), char_of (0x80 + u div 64 mod 64),
            char_of (0x80 + u mod 64)])"

definition unescape :: "char \<Rightarrow> char option" where
  "unescape c =
     map_of [(CHR 0x22, CHR 0x22), (CHR 0x5C, CHR 0x5C), (CHR ''/'', CHR ''/''),
             (CHR ''b'', CHR 0x08), (CHR ''f'', CHR 0x0C), (CHR ''n'', CHR 0x0A),
             (CHR ''r'', CHR 0x0D), (CHR ''t'', CHR 0x09)] c"

fun scan_string :: "string \<Rightarrow> string \<Rightarrow> (string \<times> string) option" where
  "scan_string acc [] = None"
| "scan_string acc (c # cs) =
     (if c = CHR 0x22 then Some (rev acc, cs)
      else if c = CHR 0x5C then
        (case cs of
           [] \<Rightarrow> None
         | e # cs' \<Rightarrow>
             if e = CHR ''u'' then
               (case hex4 (take 4 cs') of
                  None \<Rightarrow> None
                | Some u \<Rightarrow> scan_string (rev (utf8 u) @ acc) (drop 4 cs'))
             else
               (case unescape e of
                  None \<Rightarrow> None
                | Some x \<Rightarrow> scan_string (x # acc) cs'))
      else if (of_char c :: nat) < 0x20 then None
      else scan_string (c # acc) cs)"

lemma scan_string_shorter:
  "scan_string acc s = Some (v, rest) \<Longrightarrow> length rest < length s"
proof (induction acc s rule: scan_string.induct)
  case (1 acc)
  then show ?case by simp
next
  case (2 acc c cs)
  show ?case
  proof (cases "c = CHR 0x22")
    case True
    with "2.prems" show ?thesis by simp
  next
    case nq: False
    show ?thesis
    proof (cases "c = CHR 0x5C")
      case bs: True
      show ?thesis
      proof (cases cs)
        case Nil
        with "2.prems" nq bs show ?thesis by simp
      next
        case (Cons e cs')
        show ?thesis
        proof (cases "e = CHR ''u''")
          case True
          then obtain u where h: "hex4 (take 4 cs') = Some u"
            and sc: "scan_string (rev (utf8 u) @ acc) (drop 4 cs') = Some (v, rest)"
            using "2.prems" nq bs Cons by (auto split: option.splits)
          from "2.IH"(1) [OF nq bs Cons True h sc] show ?thesis using Cons by simp
        next
          case False
          then obtain x where h: "unescape e = Some x"
            and sc: "scan_string (x # acc) cs' = Some (v, rest)"
            using "2.prems" nq bs Cons by (auto split: option.splits)
          from "2.IH"(2) [OF nq bs Cons False h sc] show ?thesis using Cons by simp
        qed
      qed
    next
      case False
      then have ctl: "\<not> (of_char c :: nat) < 0x20"
        and sc: "scan_string (c # acc) cs = Some (v, rest)"
        using "2.prems" nq by (auto split: if_splits)
      from "2.IH"(3) [OF nq False ctl sc] show ?thesis by simp
    qed
  qed
qed

text \<open>The tokens of a text; \<open>None\<close> when some part of it is no token.\<close>

function json_lex :: "string \<Rightarrow> token list option" where
  "json_lex [] = Some []"
| "json_lex (c # cs) =
     (if is_ws c then json_lex cs
      else if c = CHR ''{'' then map_option (Cons TLBrace) (json_lex cs)
      else if c = CHR ''}'' then map_option (Cons TRBrace) (json_lex cs)
      else if c = CHR ''['' then map_option (Cons TLBracket) (json_lex cs)
      else if c = CHR '']'' then map_option (Cons TRBracket) (json_lex cs)
      else if c = CHR '':'' then map_option (Cons TColon) (json_lex cs)
      else if c = CHR '','' then map_option (Cons TComma) (json_lex cs)
      else if c = CHR 0x22 then
        (case scan_string [] cs of
           None \<Rightarrow> None
         | Some (s, rest) \<Rightarrow> map_option (Cons (TString s)) (json_lex rest))
      else if is_number_char c then
        (if valid_number (c # takeWhile is_number_char cs)
         then map_option (Cons (TNumber (c # takeWhile is_number_char cs)))
                (json_lex (dropWhile is_number_char cs))
         else None)
      else if take 4 (c # cs) = ''true'' then map_option (Cons TTrue) (json_lex (drop 3 cs))
      else if take 5 (c # cs) = ''false'' then map_option (Cons TFalse) (json_lex (drop 4 cs))
      else if take 4 (c # cs) = ''null'' then map_option (Cons TNull) (json_lex (drop 3 cs))
      else None)"
  by pat_completeness auto
termination
proof (relation "measure length")
  fix c cs x2 x y
  assume "scan_string [] cs = Some x2" "(x, y) = x2"
  then show "(y, c # cs) \<in> measure length"
    using scan_string_shorter [of "[]" cs x y] by simp
qed (auto intro: le_imp_less_Suc length_dropWhile_le)

text \<open>
  Values, the elements of an array after its bracket and the members of an object after
  its brace, each with the tokens left over.
\<close>

function parse_value :: "token list \<Rightarrow> (json \<times> token list) option"
  and parse_elements :: "token list \<Rightarrow> (json list \<times> token list) option"
  and parse_members :: "token list \<Rightarrow> ((string \<times> json) list \<times> token list) option"
where
  "parse_value [] = None"
| "parse_value (t # ts) =
     (case t of
        TString s \<Rightarrow> Some (JString s, ts)
      | TNumber n \<Rightarrow> Some (JNumber n, ts)
      | TTrue \<Rightarrow> Some (JBool True, ts)
      | TFalse \<Rightarrow> Some (JBool False, ts)
      | TNull \<Rightarrow> Some (JNull, ts)
      | TLBracket \<Rightarrow>
          (if take 1 ts = [TRBracket] then Some (JArray [], drop 1 ts)
           else map_option (map_prod JArray id) (parse_elements ts))
      | TLBrace \<Rightarrow>
          (if take 1 ts = [TRBrace] then Some (JObject [], drop 1 ts)
           else map_option (map_prod JObject id) (parse_members ts))
      | _ \<Rightarrow> None)"
| "parse_elements ts =
     (case parse_value ts of
        None \<Rightarrow> None
      | Some (v, r) \<Rightarrow>
          if take 1 r = [TRBracket] then Some ([v], drop 1 r)
          else if take 1 r = [TComma] \<and> length (drop 1 r) < length ts
          then map_option (map_prod (Cons v) id) (parse_elements (drop 1 r))
          else None)"
| "parse_members ts =
     (case ts of
        TString k # TColon # r \<Rightarrow>
          (case parse_value r of
             None \<Rightarrow> None
           | Some (v, r') \<Rightarrow>
               if take 1 r' = [TRBrace] then Some ([(k, v)], drop 1 r')
               else if take 1 r' = [TComma] \<and> length (drop 1 r') < length ts
               then map_option (map_prod (Cons (k, v)) id) (parse_members (drop 1 r'))
               else None)
      | _ \<Rightarrow> None)"
  by pat_completeness auto
termination
  by (relation "measure (\<lambda>x. case x of
         Inl ts \<Rightarrow> 2 * length ts
       | Inr (Inl ts) \<Rightarrow> 2 * length ts + 1
       | Inr (Inr ts) \<Rightarrow> 2 * length ts + 1)") auto

declare parse_elements.simps [simp del]
declare parse_members.simps [simp del]

text \<open>A JSON text is one value and nothing after it.\<close>

definition parse_json :: "string \<Rightarrow> json option" where
  "parse_json s =
     (case json_lex s of
        None \<Rightarrow> None
      | Some ts \<Rightarrow>
          (case parse_value ts of
             None \<Rightarrow> None
           | Some (v, rest) \<Rightarrow> if rest = [] then Some v else None))"

text \<open>
  The response schema of the specification: an object with exactly the fields
  \<open>action\<close>, \<open>message\<close> and \<open>data\<close>, the action one of the five, the message a
  string, the data an object with exactly the keys of that action.
\<close>

definition as_string :: "json \<Rightarrow> string option" where
  "as_string j = (case j of JString s \<Rightarrow> Some s | _ \<Rightarrow> None)"

definition as_object :: "json \<Rightarrow> (string \<times> json) list option" where
  "as_object j = (case j of JObject fs \<Rightarrow> Some fs | _ \<Rightarrow> None)"

definition json_field :: "string \<Rightarrow> json \<Rightarrow> json option" where
  "json_field k j = Option.bind (as_object j) (\<lambda>fs. map_of fs k)"

definition data_keys :: "string \<Rightarrow> string list option" where
  "data_keys action =
     map_of [(''reply'', []),
             (''create_goal'', [''goalTitle'', ''durationMonths'', ''dailyMinutes'']),
             (''create_task'', [''taskTitle'', ''dueDate'', ''minutes'']),
             (''complete_task'', [''taskTitle'']),
             (''show_progress'', [])] action"

definition response_schema :: "json \<Rightarrow> bool" where
  "response_schema j =
     (case as_object j of
        None \<Rightarrow> False
      | Some fs \<Rightarrow>
          distinct (map fst fs) \<and> set (map fst fs) = {''action'', ''message'', ''data''} \<and>
          (case Option.bind (map_of fs ''action'') as_string of
             None \<Rightarrow> False
           | Some a \<Rightarrow>
               (case data_keys a of
                  None \<Rightarrow> False
                | Some ks \<Rightarrow>
                    (case Option.bind (map_of fs ''message'') as_string of
                       None \<Rightarrow> False
                     | Some m \<Rightarrow>
                         (case Option.bind (map_of fs ''data'') as_object of
                            None \<Rightarrow> False
                          | Some d \<Rightarrow> distinct (map fst d) \<and> set (map fst d) = set ks)))))"

definition well_formed_response :: "string \<Rightarrow> bool" where
  "well_formed_response r = (case parse_json r of None \<Rightarrow> False | Some j \<Rightarrow> response_schema j)"

section \<open>The classifier as the specification words it\<close>

text \<open>
  The quote rule of the specification: the text strictly between the first double quote
  and the next one after it, when the prompt has two of them.
\<close>

definition spec_between_quotes :: "string \<Rightarrow> string option" where
  "spec_between_quotes p =
     (let rest = drop 1 (dropWhile (\<lambda>c. c \<noteq> CHR 0x22) p)
      in if CHR 0x22 \<in> set rest then Some (takeWhile (\<lambda>c. c \<noteq> CHR 0x22) rest) else None)"

definition spec_title :: "string \<Rightarrow> string \<Rightarrow> string" where
  "spec_title dflt p = (case spec_between_quotes p of Some t \<Rightarrow> t | None \<Rightarrow> dflt)"

text \<open>
  The eight rules of the specification in their priority order, on the lowercased
  prompt, and the response each one gives.
\<close>

datatype intent =
    CreateGoal | CreateTask | ListOrShow | Help | CompleteTask | DeleteOrRemove
  | ShowProgress | Fallback

definition spec_intent :: "string \<Rightarrow> intent" where
  "spec_intent p =
     (let l = map tolower p in
      if sublist ''create'' l \<and> sublist ''goal'' l then CreateGoal
      else if sublist ''add'' l \<and> sublist ''task'' l then CreateTask
      else if sublist ''list'' l \<or> sublist ''show'' l then ListOrShow
      else if sublist ''help'' l then Help
      else if sublist ''complete'' l \<or> sublist ''done'' l \<or> sublist ''finish'' l
      then CompleteTask
      else if sublist ''delete'' l \<or> sublist ''remove'' l then DeleteOrRemove
      else if sublist ''progress'' l \<or> sublist ''how am i'' l \<or> sublist ''status'' l
      then ShowProgress
      else Fallback)"

fun spec_response :: "intent \<Rightarrow> string \<Rightarrow> string" where
  "spec_response CreateGoal p = create_goal_response (spec_title ''New Goal'' p)"
| "spec_response CreateTask p = create_task_response (spec_title ''New Task'' p)"
| "spec_response ListOrShow p = list_response"
| "spec_response Help p = help_response"
| "spec_response CompleteTask p = complete_task_response (spec_title ''task'' p)"
| "spec_response DeleteOrRemove p = delete_response"
| "spec_response ShowProgress p = progress_response"
| "spec_response Fallback p = default_response"

text \<open>The characters that may stand in a JSON string literal as they are.\<close>

definition json_plain :: "char \<Rightarrow> bool" where
  "json_plain c \<longleftrightarrow> c \<noteq> CHR 0x22 \<and> c \<noteq> CHR 0x5C \<and> 0x20 \<le> (of_char c :: nat)"

text \<open>What a caller reads off a response: its action and a field of its data.\<close>

definition action_of :: "string \<Rightarrow> string option" where
  "action_of r =
     Option.bind (Option.bind (parse_json r) (json_field ''action'')) as_string"

definition data_field :: "string \<Rightarrow> string \<Rightarrow> json option" where
  "data_field k r = Option.bind (Option.bind (parse_json r) (json_field ''data'')) (json_field k)"

text \<open>Two registries that short histories reach, for the examples.\<close>

definition one_model :: registry where
  "one_model = \<lparr>g_contexts = [(1, newModelContext ''a.gguf'')], g_next_handle = 2\<rparr>"

definition two_models :: registry where
  "two_models =
     \<lparr>g_contexts = [(2, newModelContext ''b.gguf''), (1, newModelContext ''a.gguf'')],
      g_next_handle = 3\<rparr>"

section \<open>The registry invariant\<close>

lemma sint_max: "sint (x :: 64 word) = 9223372036854775807 \<Longrightarrow> x = 0x7FFFFFFFFFFFFFFF"
proof -
  assume a: "sint x = 9223372036854775807"
  have "sint x = sint (0x7FFFFFFFFFFFFFFF :: 64 word)" using a by simp
  then show ?thesis by (simp only: signed_word_eqI)
qed

lemma sint_succ: "(x :: 64 word) \<noteq> 0x7FFFFFFFFFFFFFFF \<Longrightarrow> sint (x + 1) = sint x + 1"
proof -
  assume a: "x \<noteq> 0x7FFFFFFFFFFFFFFF"
  have lt: "sint x < 2 ^ 63" using sint_lt [of x] by simp
  have ge: "- (2 ^ 63) \<le> sint x" using sint_ge [of x] by simp
  have ne: "sint x \<noteq> 9223372036854775807" using a sint_max by blast
  have "sint (x + 1) = signed_take_bit 63 (sint x + 1)"
    by (simp add: sint_word_ariths)
  also have "\<dots> = sint x + 1"
    using lt ge ne by (intro signed_take_bit_int_eq_self) simp_all
  finally show ?thesis .
qed

lemma map_of_None_iff: "map_of t k = None \<longleftrightarrow> k \<notin> fst ` set t"
  by (simp add: map_of_eq_None_iff)

lemma umap_store_fresh:
  assumes "map_of t k = None"
  shows "map_of (umap_store slot k v t) = (map_of t)(k \<mapsto> v)"
    and "fst ` set (umap_store slot k v t) = insert k (fst ` set t)"
    and "distinct (map fst t) \<Longrightarrow> distinct (map fst (umap_store slot k v t))"
proof -
  let ?i = "slot k (map fst t)"
  have t: "t = take ?i t @ drop ?i t" by simp
  have st: "umap_store slot k v t = take ?i t @ (k, v) # drop ?i t"
    using assms by (simp add: umap_store_def)
  have nk: "k \<notin> fst ` set t" using assms by (simp add: map_of_eq_None_iff)
  have nk1: "k \<notin> fst ` set (take ?i t)" using nk set_take_subset [of ?i t] by auto
  have nk2: "k \<notin> fst ` set (drop ?i t)" using nk set_drop_subset [of ?i t] by auto
  show "fst ` set (umap_store slot k v t) = insert k (fst ` set t)"
  proof -
    have "set t = set (take ?i t) \<union> set (drop ?i t)"
      by (metis t set_append)
    then show ?thesis unfolding st by auto
  qed
  show "map_of (umap_store slot k v t) = (map_of t)(k \<mapsto> v)"
  proof
    fix x
    have m1: "map_of (take ?i t) k = None" using nk1 by (simp add: map_of_eq_None_iff)
    have "map_of t x = map_of (take ?i t @ drop ?i t) x" by simp
    also have "\<dots> = (map_of (drop ?i t) ++ map_of (take ?i t)) x" by (simp only: map_of_append)
    finally have e: "map_of t x = (map_of (drop ?i t) ++ map_of (take ?i t)) x" .
    show "map_of (umap_store slot k v t) x = ((map_of t)(k \<mapsto> v)) x"
      unfolding st using m1 e by (auto simp: map_add_def split: option.splits)
  qed
  show "distinct (map fst t) \<Longrightarrow> distinct (map fst (umap_store slot k v t))"
  proof -
    assume d: "distinct (map fst t)"
    have "distinct (map fst (take ?i t) @ map fst (drop ?i t))"
      using d by (metis t map_append)
    then show ?thesis unfolding st using nk1 nk2 by auto
  qed
qed

lemma umap_erase_keys:
  "distinct (map fst t) \<Longrightarrow> fst ` set (umap_erase h t) = fst ` set t - {h}"
  by (induction t) (auto simp: rev_image_eqI)

lemma umap_erase_distinct:
  "distinct (map fst t) \<Longrightarrow> distinct (map fst (umap_erase h t))"
proof (induction t)
  case Nil
  then show ?case by simp
next
  case (Cons e t)
  have "fst ` set (umap_erase h t) \<subseteq> fst ` set t"
    using Cons.prems by (auto simp: umap_erase_keys)
  then show ?case using Cons by auto
qed

lemma initModel_Inr:
  "initModel slot path s = Inr (h, s') \<longleftrightarrow>
     g_next_handle s \<noteq> 0x7FFFFFFFFFFFFFFF \<and> h = g_next_handle s \<and>
     s' = s\<lparr>g_next_handle := g_next_handle s + 1,
            g_contexts := umap_store slot (g_next_handle s) (newModelContext path) (g_contexts s)\<rparr>"
  by (auto simp: initModel_def allocateHandle_def)

lemma initModel_Inl:
  "initModel slot path s = Inl e \<longleftrightarrow>
     g_next_handle s = 0x7FFFFFFFFFFFFFFF \<and> e = SignedOverflow"
  by (auto simp: initModel_def allocateHandle_def)

lemma initModel_inv:
  assumes inv: "reg_inv s" and init: "initModel slot path s = Inr (h, s')"
  shows "reg_inv s'"
    and "handles_of s' = insert h (handles_of s)"
    and "h \<notin> handles_of s"
    and "h = g_next_handle s"
    and "sint (g_next_handle s') = sint (g_next_handle s) + 1"
    and "map_of (g_contexts s') h = Some (newModelContext path)"
proof -
  from init have ne: "g_next_handle s \<noteq> 0x7FFFFFFFFFFFFFFF"
    and h: "h = g_next_handle s"
    and s': "s' = s\<lparr>g_next_handle := h + 1,
            g_contexts := umap_store slot h (newModelContext path) (g_contexts s)\<rparr>"
    by (simp_all add: initModel_Inr)
  show "h = g_next_handle s" by (rule h)
  show fresh: "h \<notin> handles_of s"
    using inv h by (auto simp: reg_inv_def)
  then have none: "map_of (g_contexts s) h = None"
    by (simp add: handles_of_def map_of_eq_None_iff)
  show nxt: "sint (g_next_handle s') = sint (g_next_handle s) + 1"
    using ne by (simp add: s' h sint_succ)
  show keys: "handles_of s' = insert h (handles_of s)"
    by (simp add: s' handles_of_def umap_store_fresh(2) [OF none])
  show "map_of (g_contexts s') h = Some (newModelContext path)"
    by (simp add: s' umap_store_fresh(1) [OF none])
  have "distinct (map fst (g_contexts s'))"
    using inv by (simp add: s' reg_inv_def umap_store_fresh(3) [OF none])
  moreover have "0 < sint (g_next_handle s')"
    using inv nxt by (simp add: reg_inv_def)
  moreover have "\<forall>k \<in> handles_of s'. 0 < sint k \<and> sint k < sint (g_next_handle s')"
    using inv nxt h by (auto simp: keys reg_inv_def)
  ultimately show "reg_inv s'" by (simp add: reg_inv_def)
qed

lemma freeModel_inv:
  assumes "reg_inv s"
  shows "reg_inv (freeModel h s)" and "handles_of (freeModel h s) = handles_of s - {h}"
proof -
  have d: "distinct (map fst (g_contexts s))" using assms by (simp add: reg_inv_def)
  show k: "handles_of (freeModel h s) = handles_of s - {h}"
  proof (cases "map_of (g_contexts s) h")
    case None
    then have "h \<notin> handles_of s" by (simp add: handles_of_def map_of_eq_None_iff)
    then show ?thesis using None by (simp add: freeModel_def)
  next
    case (Some ctx)
    then show ?thesis using d by (simp add: freeModel_def handles_of_def umap_erase_keys)
  qed
  have "distinct (map fst (g_contexts (freeModel h s)))"
    using d by (simp add: freeModel_def umap_erase_distinct split: option.splits)
  moreover have "g_next_handle (freeModel h s) = g_next_handle s"
    by (simp add: freeModel_def split: option.splits)
  ultimately show "reg_inv (freeModel h s)"
    using assms by (auto simp: reg_inv_def k)
qed

lemma generate_state: "generate h p n s = Inr (r, s') \<Longrightarrow> s' = s"
  by (auto simp: generate_def split: if_splits sum.splits)

lemma nativeGenerate_state: "nativeGenerate p n t tp s = Inr (r, s') \<Longrightarrow> s' = s"
  by (auto simp: nativeGenerate_def Let_def generate_state split: if_splits)

lemma nativeGenerateWithCallback_state:
  "nativeGenerateWithCallback p n t cb s = Inr (r, s') \<Longrightarrow> s' = s"
  by (auto simp: nativeGenerateWithCallback_def nativeGenerate_state split: sum.splits)

lemma unload_inv:
  "reg_inv s \<Longrightarrow> reg_inv (nativeUnloadModel s)" "handles_of (nativeUnloadModel s) = {}"
  by (simp_all add: reg_inv_def nativeUnloadModel_def handles_of_def)

lemma exec_inv:
  assumes inv: "reg_inv s" and ex: "exec slot c s = Inr (r, s')"
  shows "reg_inv s' \<and> handles_of s' = live_step slot c s (handles_of s) \<and>
         sint (g_next_handle s') = sint (g_next_handle s) + int (length (issued slot c s)) \<and>
         set (issued slot c s) \<subseteq> {g_next_handle s}"
proof (cases c)
  case (InitModel path)
  then obtain h where i: "initModel slot path s = Inr (h, s')"
    using ex by (cases "initModel slot path s") auto
  show ?thesis using initModel_inv [OF inv i] by (simp add: InitModel i)
next
  case (LoadModel path nt nc)
  then obtain h where i: "initModel slot path s = Inr (h, s')"
    using ex by (cases "initModel slot path s") (auto simp: nativeLoadModel_def)
  show ?thesis using initModel_inv [OF inv i] by (simp add: LoadModel i)
next
  case (Generate h p n)
  then have "s' = s" using ex generate_state by (cases "generate h p n s") auto
  then show ?thesis using inv by (simp add: Generate)
next
  case (FreeModel h)
  then have s': "s' = freeModel h s" using ex by simp
  show ?thesis using freeModel_inv [OF inv, of h]
    by (simp add: FreeModel s' freeModel_def split: option.splits)
next
  case (NativeGenerate p n t tp)
  then have "s' = s" using ex nativeGenerate_state by (cases "nativeGenerate p n t tp s") auto
  then show ?thesis using inv by (simp add: NativeGenerate)
next
  case (NativeGenerateWithCallback p n t cb)
  then have "s' = s" using ex nativeGenerateWithCallback_state
    by (cases "nativeGenerateWithCallback p n t cb s") auto
  then show ?thesis using inv by (simp add: NativeGenerateWithCallback)
next
  case UnloadModel
  then have s': "s' = nativeUnloadModel s" using ex by simp
  show ?thesis using unload_inv [of s] inv
    by (simp add: UnloadModel s' nativeUnloadModel_def)
next
  case Cleanup
  then have s': "s' = nativeUnloadModel s" using ex by (simp add: nativeCleanup_def)
  show ?thesis using unload_inv [of s] inv
    by (simp add: Cleanup s' nativeUnloadModel_def)
next
  case IsModelLoaded
  then have "s' = s" using ex by simp
  then show ?thesis using inv by (simp add: IsModelLoaded)
next
  case GetModelInfo
  then have "s' = s" using ex by simp
  then show ?thesis using inv by (simp add: GetModelInfo)
qed

lemma run_inv:
  assumes "reg_inv s0" and "run slot cs s0 = Inr (rs, s)"
  shows "reg_inv s \<and> handles_of s = live_in slot cs s0 (handles_of s0) \<and>
         sint (g_next_handle s) = sint (g_next_handle s0) + int (length (issued_in slot cs s0)) \<and>
         (\<forall>h \<in> set (issued_in slot cs s0).
            sint (g_next_handle s0) \<le> sint h \<and> sint h < sint (g_next_handle s)) \<and>
         distinct (issued_in slot cs s0)"
  using assms
proof (induction cs arbitrary: s0 rs)
  case Nil
  then show ?case by simp
next
  case (Cons c cs)
  from Cons.prems(2) obtain r s1 rs1 where
    ex: "exec slot c s0 = Inr (r, s1)" and rn: "run slot cs s1 = Inr (rs1, s)"
    by (auto split: sum.splits)
  from exec_inv [OF Cons.prems(1) ex]
  have inv1: "reg_inv s1"
    and keys1: "handles_of s1 = live_step slot c s0 (handles_of s0)"
    and next1: "sint (g_next_handle s1) =
                  sint (g_next_handle s0) + int (length (issued slot c s0))"
    and iss1: "set (issued slot c s0) \<subseteq> {g_next_handle s0}"
    by blast+
  from Cons.IH [OF inv1 rn]
  have inv2: "reg_inv s"
    and keys2: "handles_of s = live_in slot cs s1 (handles_of s1)"
    and next2: "sint (g_next_handle s) =
                  sint (g_next_handle s1) + int (length (issued_in slot cs s1))"
    and iss2: "\<forall>h \<in> set (issued_in slot cs s1).
                 sint (g_next_handle s1) \<le> sint h \<and> sint h < sint (g_next_handle s)"
    and dist2: "distinct (issued_in slot cs s1)"
    by blast+
  have b: "handles_of s = live_in slot (c # cs) s0 (handles_of s0)"
    by (simp add: ex keys2 keys1)
  have c: "sint (g_next_handle s) =
      sint (g_next_handle s0) + int (length (issued_in slot (c # cs) s0))"
    by (simp add: ex next2 next1)
  have mono: "sint (g_next_handle s0) \<le> sint (g_next_handle s1)"
    "sint (g_next_handle s1) \<le> sint (g_next_handle s)"
    by (simp_all add: next1 next2)
  have pos: "h = g_next_handle s0 \<and> sint h < sint (g_next_handle s1)"
    if h: "h \<in> set (issued slot c s0)" for h
  proof -
    from h have "0 < length (issued slot c s0)" by (cases "issued slot c s0") auto
    then have "sint (g_next_handle s0) < sint (g_next_handle s1)" by (simp add: next1)
    moreover from h iss1 have "h = g_next_handle s0" by auto
    ultimately show ?thesis by simp
  qed
  have d: "\<forall>h \<in> set (issued_in slot (c # cs) s0).
            sint (g_next_handle s0) \<le> sint h \<and> sint h < sint (g_next_handle s)"
  proof
    fix h assume "h \<in> set (issued_in slot (c # cs) s0)"
    then consider "h \<in> set (issued slot c s0)" | "h \<in> set (issued_in slot cs s1)"
      by (auto simp: ex)
    then show "sint (g_next_handle s0) \<le> sint h \<and> sint h < sint (g_next_handle s)"
    proof cases
      case 1
      from pos [OF 1] have "h = g_next_handle s0" and "sint h < sint (g_next_handle s1)"
        by blast+
      then show ?thesis using mono by simp
    next
      case 2
      with iss2 have "sint (g_next_handle s1) \<le> sint h" "sint h < sint (g_next_handle s)"
        by blast+
      then show ?thesis using mono by simp
    qed
  qed
  have e: "distinct (issued_in slot (c # cs) s0)"
  proof -
    have "length (issued slot c s0) \<le> 1" by (cases c) (auto split: sum.splits)
    then have d1: "distinct (issued slot c s0)"
      by (cases "issued slot c s0") auto
    have "set (issued slot c s0) \<inter> set (issued_in slot cs s1) = {}"
    proof (rule ccontr)
      assume "set (issued slot c s0) \<inter> set (issued_in slot cs s1) \<noteq> {}"
      then obtain h where h: "h \<in> set (issued slot c s0)"
        and h': "h \<in> set (issued_in slot cs s1)"
        by blast
      have "sint h < sint (g_next_handle s1)" using pos [OF h] by blast
      moreover have "sint (g_next_handle s1) \<le> sint h" using iss2 h' by blast
      ultimately show False by simp
    qed
    then show ?thesis using d1 dist2 by (simp add: ex)
  qed
  from inv2 b c d e show ?case by (intro conjI)
qed

lemma initial_inv: "reg_inv initial"
  by (simp add: reg_inv_def initial_def handles_of_def)

section \<open>The string operations\<close>

lemma find_chr_at_range:
  "find_chr_at i ch s \<noteq> npos \<Longrightarrow> i \<le> find_chr_at i ch s \<and> find_chr_at i ch s < i + length s"
proof (induction s arbitrary: i)
  case Nil
  then show ?case by simp
next
  case (Cons c s)
  show ?case
  proof (cases "c = ch")
    case True
    then show ?thesis by simp
  next
    case False
    then have "find_chr_at (Suc i) ch s \<noteq> npos" using Cons.prems by simp
    from Cons.IH [OF this] show ?thesis using False by simp
  qed
qed

lemma find_chr_at_absent: "ch \<notin> set s \<Longrightarrow> find_chr_at i ch s = npos"
  by (induction s arbitrary: i) auto

lemma find_chr_at_first: "ch \<notin> set a \<Longrightarrow> find_chr_at i ch (a @ ch # r) = i + length a"
  by (induction a arbitrary: i) auto

lemma size_add_le: "size_add a b \<le> a + b"
  by (simp add: size_add_def)

lemma quoted_or_total: "\<exists>t. quoted_or d p = Inr t"
proof (cases "find_chr p (CHR 0x22) 0 = npos")
  case True
  then show ?thesis by (simp add: quoted_or_def Let_def)
next
  case False
  then have "find_chr_at 0 (CHR 0x22) p \<noteq> npos" by (simp add: find_chr_def)
  from find_chr_at_range [OF this] have "find_chr p (CHR 0x22) 0 < length p"
    by (simp add: find_chr_def)
  then have "size_add (find_chr p (CHR 0x22) 0) 1 \<le> length p"
    using size_add_le [of "find_chr p (CHR 0x22) 0" 1] by simp
  then show ?thesis by (simp add: quoted_or_def Let_def substr_def)
qed

lemma quoted_or_two:
  assumes p: "p = a @ CHR 0x22 # t @ CHR 0x22 # r"
    and a: "CHR 0x22 \<notin> set a" and t: "CHR 0x22 \<notin> set t" and len: "length p < npos"
  shows "quoted_or d p = Inr t"
proof -
  let ?la = "length a" and ?lt = "length t"
  have bound: "?la + ?lt + 2 < 2 ^ 64 - 1" using len by (simp add: p npos_def)
  have qs: "find_chr p (CHR 0x22) 0 = ?la"
    using find_chr_at_first [OF a, of 0] by (simp add: find_chr_def p)
  have add: "size_add ?la 1 = ?la + 1"
    using bound by (simp add: size_add_def)
  have dr: "drop (?la + 1) p = t @ CHR 0x22 # r" by (simp add: p)
  have qe: "find_chr p (CHR 0x22) (?la + 1) = ?la + 1 + ?lt"
    using find_chr_at_first [OF t, of "?la + 1"] by (simp only: find_chr_def dr)
  have "(?la + 1 + ?lt + 2 ^ 64 - ?la) = (?lt + 1) + 2 ^ 64" by simp
  then have "size_sub (?la + 1 + ?lt) ?la = (?lt + 1 + 2 ^ 64) mod 2 ^ 64"
    by (simp only: size_sub_def)
  also have "\<dots> = (?lt + 1) mod 2 ^ 64" by (rule mod_add_self2)
  also have "\<dots> = ?lt + 1" using bound by (intro mod_less) simp
  finally have sub1: "size_sub (?la + 1 + ?lt) ?la = ?lt + 1" .
  have "?lt + 1 + 2 ^ 64 - 1 = ?lt + 2 ^ 64" by simp
  then have "size_sub (?lt + 1) 1 = (?lt + 2 ^ 64) mod 2 ^ 64" by (simp only: size_sub_def)
  also have "\<dots> = ?lt mod 2 ^ 64" by (rule mod_add_self2)
  also have "\<dots> = ?lt" using bound by (intro mod_less) simp
  finally have sub2: "size_sub (?lt + 1) 1 = ?lt" .
  have ne: "?la \<noteq> npos" "?la + 1 + ?lt \<noteq> npos" using bound by (simp_all add: npos_def)
  have sb: "substr p (?la + 1) ?lt = Inr t" by (simp add: substr_def dr) (simp add: p)
  show ?thesis
    unfolding quoted_or_def Let_def qs add qe sub1 sub2 using ne sb by simp
qed

lemma quoted_or_spec:
  assumes len: "length p < npos"
  shows "quoted_or d p = Inr (spec_title d p)"
proof (cases "CHR 0x22 \<in> set p")
  case False
  then have dw: "dropWhile (\<lambda>c. c \<noteq> CHR 0x22) p = []" by auto
  have "spec_between_quotes p = None" unfolding spec_between_quotes_def Let_def dw by simp
  then have "spec_title d p = d" by (simp add: spec_title_def)
  moreover have "find_chr p (CHR 0x22) 0 = npos"
    using False by (simp add: find_chr_def find_chr_at_absent)
  ultimately show ?thesis by (simp add: quoted_or_def Let_def)
next
  case True
  then obtain a rest where p: "p = a @ CHR 0x22 # rest" and a: "CHR 0x22 \<notin> set a"
    by (meson split_list_first)
  have "dropWhile (\<lambda>c. c \<noteq> CHR 0x22) (a @ CHR 0x22 # rest) = CHR 0x22 # rest"
    using a by (induction a) auto
  then have dw: "drop 1 (dropWhile (\<lambda>c. c \<noteq> CHR 0x22) p) = rest"
    by (simp add: p)
  show ?thesis
  proof (cases "CHR 0x22 \<in> set rest")
    case False
    have la: "length a < 2 ^ 64 - 1" using len by (simp add: p npos_def)
    have "spec_between_quotes p = None"
      unfolding spec_between_quotes_def Let_def dw using False by simp
    then have st: "spec_title d p = d" by (simp add: spec_title_def)
    have qs: "find_chr p (CHR 0x22) 0 = length a"
      using find_chr_at_first [OF a, of 0] by (simp add: find_chr_def p)
    have add: "size_add (length a) 1 = length a + 1" using la by (simp add: size_add_def)
    have qe: "find_chr p (CHR 0x22) (length a + 1) = npos"
      using False by (simp add: find_chr_def p find_chr_at_absent)
    show ?thesis unfolding quoted_or_def Let_def qs add qe st by simp
  next
    case True
    then obtain t r where rest: "rest = t @ CHR 0x22 # r" and t: "CHR 0x22 \<notin> set t"
      by (meson split_list_first)
    have "takeWhile (\<lambda>c. c \<noteq> CHR 0x22) rest = t"
      unfolding rest using t by (induction t) auto
    then have "spec_between_quotes p = Some t"
      unfolding spec_between_quotes_def Let_def dw using True by simp
    then have "spec_title d p = t" by (simp add: spec_title_def)
    moreover have "quoted_or d p = Inr t"
      using quoted_or_two [OF _ a t len] p rest by simp
    ultimately show ?thesis by simp
  qed
qed

lemma find_str_at_sublist:
  "i + length s < npos \<Longrightarrow> (find_str_at i pat s \<noteq> npos) = sublist pat s"
proof (induction s arbitrary: i)
  case Nil
  then show ?case by auto
next
  case (Cons c s)
  show ?case
  proof (cases "prefix pat (c # s)")
    case True
    then show ?thesis using Cons.prems by (auto simp: sublist_Cons_right)
  next
    case False
    have "Suc i + length s < npos" using Cons.prems by simp
    from Cons.IH [OF this] show ?thesis using False by (simp add: sublist_Cons_right)
  qed
qed

lemma find_str_sublist: "length s < npos \<Longrightarrow> (find_str s pat \<noteq> npos) = sublist pat s"
  using find_str_at_sublist [of 0 s pat] by (simp add: find_str_def)

section \<open>Reading the responses\<close>

text \<open>
  A successful parse always consumes a token, so the length tests that make the
  recursion of \<open>parse_elements\<close> and \<open>parse_members\<close> terminate never reject a text.
\<close>

lemma parse_consumes:
  "parse_value ts = Some (v, r) \<Longrightarrow> length r < length ts"
  "parse_elements ts1 = Some (vs, r1) \<Longrightarrow> length r1 < length ts1"
  "parse_members ts2 = Some (ms, r2) \<Longrightarrow> length r2 < length ts2"
proof (induction ts and ts1 and ts2 arbitrary: v r and vs r1 and ms r2
    rule: parse_value_parse_elements_parse_members.induct)
  case 1
  then show ?case by simp
next
  case (2 t ts)
  show ?case
  proof (cases t)
    case TLBracket
    show ?thesis
    proof (cases "take 1 ts = [TRBracket]")
      case True
      then show ?thesis using "2.prems" TLBracket by auto
    next
      case False
      then obtain vs where "parse_elements ts = Some (vs, r)"
        using "2.prems" TLBracket by auto
      from "2.IH"(2) [OF TLBracket False this] show ?thesis by simp
    qed
  next
    case TLBrace
    show ?thesis
    proof (cases "take 1 ts = [TRBrace]")
      case True
      then show ?thesis using "2.prems" TLBrace by auto
    next
      case False
      then obtain ms where "parse_members ts = Some (ms, r)"
        using "2.prems" TLBrace by auto
      from "2.IH"(1) [OF TLBrace False this] show ?thesis by simp
    qed
  qed (use "2.prems" in auto)
next
  case (3 ts)
  from "3.prems" obtain v r where pv: "parse_value ts = Some (v, r)"
    by (auto simp: parse_elements.simps split: option.splits)
  from "3.IH"(1) [OF pv] have lr: "length r < length ts" .
  show ?case
  proof (cases "take 1 r = [TRBracket]")
    case True
    then have "r1 = drop 1 r" using "3.prems" pv by (simp add: parse_elements.simps)
    then show ?thesis using lr by simp
  next
    case False
    then have c: "take 1 r = [TComma] \<and> length (drop 1 r) < length ts"
      and "\<exists>vs'. parse_elements (drop 1 r) = Some (vs', r1)"
      using "3.prems" pv by (auto simp: parse_elements.simps split: if_splits)
    then obtain vs' where pe: "parse_elements (drop 1 r) = Some (vs', r1)" by blast
    from "3.IH"(2) [OF pv refl False c pe] have "length r1 < length (drop 1 r)" .
    then show ?thesis using lr by simp
  qed
next
  case (4 ts)
  from "4.prems" obtain k r where ts: "ts = TString k # TColon # r"
    by (auto simp: parse_members.simps split: list.splits token.splits)
  from "4.prems" ts obtain v r' where pv: "parse_value r = Some (v, r')"
    by (auto simp: parse_members.simps split: option.splits)
  from "4.IH"(1) [OF ts refl refl refl pv] have lr: "length r' < length r" .
  show ?case
  proof (cases "take 1 r' = [TRBrace]")
    case True
    then have "r2 = drop 1 r'" using "4.prems" pv ts by (simp add: parse_members.simps)
    then show ?thesis using lr ts by simp
  next
    case False
    then have c: "take 1 r' = [TComma] \<and> length (drop 1 r') < length ts"
      and "\<exists>ms'. parse_members (drop 1 r') = Some (ms', r2)"
      using "4.prems" pv ts by (auto simp: parse_members.simps split: if_splits)
    then obtain ms' where pe: "parse_members (drop 1 r') = Some (ms', r2)" by blast
    from "4.IH"(2) [OF ts refl refl refl pv refl False c pe] have "length r2 < length (drop 1 r')" .
    then show ?thesis using lr ts by simp
  qed
qed

lemma scan_string_plain:
  "list_all json_plain t \<Longrightarrow>
   scan_string acc (t @ CHR 0x22 # rest) = Some (rev acc @ t, rest)"
  by (induction t arbitrary: acc) (auto simp: json_plain_def)

lemmas lex_eval = is_ws_def is_digit_def is_number_char_def valid_number_def
  opt_fraction_def opt_exponent_def unescape_def

lemmas parse_eval = parse_json_def parse_elements.simps parse_members.simps

lemmas schema_eval = well_formed_response_def response_schema_def as_object_def as_string_def
  data_keys_def

lemma parse_list_response:
  "parse_json list_response = Some (JObject
     [(''action'', JString ''reply''),
      (''message'', JString ''Here are your current items. You can ask me to create goals or add tasks!''),
      (''data'', JObject [])])"
  by (simp add: lex_eval parse_eval list_response_def)

lemma lex_create_goal:
  assumes "list_all json_plain t"
  shows "json_lex (create_goal_response t) = Some
    [TLBrace, TString ''action'', TColon, TString ''create_goal'', TComma,
     TString ''message'', TColon, TString (''I'll create a goal for '' @ t), TComma,
     TString ''data'', TColon, TLBrace,
     TString ''goalTitle'', TColon, TString t, TComma,
     TString ''durationMonths'', TColon, TNumber ''3'', TComma,
     TString ''dailyMinutes'', TColon, TNumber ''30'', TRBrace, TRBrace]"
  using assms by (simp add: lex_eval create_goal_response_def scan_string_plain)

lemma parse_create_goal:
  assumes "list_all json_plain t"
  shows "parse_json (create_goal_response t) = Some (JObject
     [(''action'', JString ''create_goal''),
      (''message'', JString (''I'll create a goal for '' @ t)),
      (''data'', JObject [(''goalTitle'', JString t), (''durationMonths'', JNumber ''3''),
                          (''dailyMinutes'', JNumber ''30'')])])"
  by (simp add: parse_eval lex_create_goal [OF assms])

lemma wf_create_goal:
  assumes "list_all json_plain t"
  shows "well_formed_response (create_goal_response t)"
  by (simp add: well_formed_response_def parse_create_goal [OF assms] response_schema_def
      as_object_def as_string_def data_keys_def)

lemma wf_list: "well_formed_response list_response"
  by (simp add: well_formed_response_def parse_list_response response_schema_def
      as_object_def as_string_def data_keys_def)

section \<open>Frame and independence properties\<close>

lemma umap_erase_other: "h' \<noteq> h \<Longrightarrow> map_of (umap_erase h t) h' = map_of t h'"
  by (induction t) auto

lemma umap_erase_absent: "map_of t h = None \<Longrightarrow> umap_erase h t = t"
  by (induction t) (auto split: if_splits)

text \<open>
  C8. \<open>freeModel h\<close> removes at most the entry of \<open>h\<close>: the entry of every other handle,
  with its context, is as before, and so is the counter. When \<open>h\<close> is not registered
  the call changes nothing at all; \<open>freeModel\<close> returns no value, so there is no error
  it could hand to its caller.
\<close>

theorem freeModel_frame:
  "(\<forall>h'. h' \<noteq> h \<longrightarrow> map_of (g_contexts (freeModel h s)) h' = map_of (g_contexts s) h') \<and>
   g_next_handle (freeModel h s) = g_next_handle s \<and>
   (map_of (g_contexts s) h = None \<longrightarrow> freeModel h s = s)"
  by (auto simp: freeModel_def umap_erase_other split: option.splits)

theorem freeModel_frame_witness:
  "map_of (g_contexts (freeModel 1
      \<lparr>g_contexts = [(1, newModelContext ''a''), (2, newModelContext ''b'')],
       g_next_handle = 3\<rparr>)) 2 = Some (newModelContext ''b'') \<and>
   freeModel 7 initial = initial"
  using freeModel_frame [of 1 "\<lparr>g_contexts = [(1, newModelContext ''a''),
      (2, newModelContext ''b'')], g_next_handle = 3\<rparr>"]
    freeModel_frame [of 7 initial]
  by (simp add: initial_def)

text \<open>
  C10. The response of \<open>generate\<close> is the same for all values of \<open>maxTokens\<close>, and the
  response of the legacy \<open>nativeGenerate\<close> does not depend on \<open>maxTokens\<close>, \<open>temperature\<close>
  or \<open>topP\<close>: the parameters are accepted and have no effect on what is returned.
\<close>

theorem generate_ignores_sampling_parameters:
  "generate h p n s = generate h p n' s \<and>
   nativeGenerate p n t tp s = nativeGenerate p n' t' tp' s"
  by (simp add: generate_def nativeGenerate_def Let_def)

theorem generate_ignores_sampling_parameters_witness:
  "generate 1 ''add task'' 16 one_model = generate 1 ''add task'' 512 one_model \<and>
   nativeGenerate ''add task'' 16 0x3F333333 0x3F666666 one_model =
     nativeGenerate ''add task'' 512 0x3F800000 0x3F000000 one_model"
  using generate_ignores_sampling_parameters
    [of 1 "''add task''" 16 one_model 512 "0x3F333333" "0x3F666666" "0x3F800000" "0x3F000000"]
  by simp

section \<open>Handles over histories\<close>

lemma live_step_subset: "live_step slot c s L \<subseteq> L \<union> set (issued slot c s)"
  by (cases c) auto

lemma live_in_subset: "live_in slot cs s L \<subseteq> L \<union> set (issued_in slot cs s)"
proof (induction cs arbitrary: s L)
  case Nil
  then show ?case by simp
next
  case (Cons c cs)
  show ?case
  proof (cases "exec slot c s")
    case (Inl e)
    then show ?thesis by simp
  next
    case (Inr x)
    obtain r s' where x: "x = (r, s')" by (cases x)
    have "live_in slot cs s' (live_step slot c s L)
            \<subseteq> live_step slot c s L \<union> set (issued_in slot cs s')"
      by (rule Cons.IH)
    then show ?thesis using live_step_subset [of slot c s L] by (auto simp: Inr x)
  qed
qed

lemma stub_response_total: "\<exists>r. stub_response p = Inr r \<and> r \<noteq> invalid_context_response"
proof -
  obtain g where g: "quoted_or ''New Goal'' p = Inr g" using quoted_or_total by blast
  obtain t where t: "quoted_or ''New Task'' p = Inr t" using quoted_or_total by blast
  obtain c where c: "quoted_or ''task'' p = Inr c" using quoted_or_total by blast
  have ne: "create_goal_response g \<noteq> invalid_context_response"
    "create_task_response t \<noteq> invalid_context_response"
    "complete_task_response c \<noteq> invalid_context_response"
    "list_response \<noteq> invalid_context_response"
    "help_response \<noteq> invalid_context_response"
    "delete_response \<noteq> invalid_context_response"
    "progress_response \<noteq> invalid_context_response"
    "default_response \<noteq> invalid_context_response"
    by (simp_all add: create_goal_response_def create_task_response_def
        complete_task_response_def list_response_def help_response_def delete_response_def
        progress_response_def default_response_def invalid_context_response_def)
  show ?thesis unfolding stub_response_def Let_def using ne by (simp add: g t c)
qed

lemma generate_registered:
  assumes "map_of (g_contexts s) h = Some ctx"
  shows "\<exists>r. generate h p n s = Inr (r, s) \<and> r \<noteq> invalid_context_response"
proof -
  obtain r where "stub_response p = Inr r" "r \<noteq> invalid_context_response"
    using stub_response_total by blast
  then show ?thesis using assms by (simp add: generate_def)
qed

lemma generate_total: "\<exists>r. generate h p n s = Inr (r, s)"
proof (cases "map_of (g_contexts s) h")
  case None
  then show ?thesis by (simp add: generate_def)
next
  case (Some ctx)
  then show ?thesis using generate_registered by blast
qed

lemma nativeGenerate_total: "\<exists>r. nativeGenerate p n t tp s = Inr (r, s)"
  using generate_total by (simp add: nativeGenerate_def Let_def)

text \<open>
  C1. After any history of calls from process start, \<open>generate\<close> on a handle that
  \<open>initModel\<close> never returned, or that was freed and has not been issued again, returns
  exactly the fixed invalid-context text, and the handle table and the counter are as they
  were before the call.
\<close>

theorem generate_unregistered_handle:
  assumes "run slot cs initial = Inr (rs, s)"
    and "h \<notin> set (issued_in slot cs initial) \<or> h \<notin> live_in slot cs initial {}"
  shows "generate h p n s = Inr (invalid_context_response, s)"
proof -
  have "live_in slot cs initial {} \<subseteq> set (issued_in slot cs initial)"
    using live_in_subset [of slot cs initial "{}"] by simp
  with assms(2) have "h \<notin> live_in slot cs initial {}" by blast
  moreover have "handles_of s = live_in slot cs initial {}"
    using run_inv [OF initial_inv assms(1)] by (simp add: handles_of_def initial_def)
  ultimately have "map_of (g_contexts s) h = None"
    by (simp add: handles_of_def map_of_eq_None_iff)
  then show ?thesis by (simp add: generate_def)
qed

lemmas run_eval = initial_def initModel_def allocateHandle_def umap_store_def slot_front_def
  newModelContext_def freeModel_def

theorem generate_unregistered_handle_witness:
  "run slot_front [InitModel ''a.gguf'', FreeModel 1] initial =
     Inr ([Handle 1, Void], \<lparr>g_contexts = [], g_next_handle = 2\<rparr>) \<and>
   1 \<notin> live_in slot_front [InitModel ''a.gguf'', FreeModel 1] initial {} \<and>
   7 \<notin> set (issued_in slot_front [InitModel ''a.gguf'', FreeModel 1] initial) \<and>
   generate 1 ''hello'' 16 \<lparr>g_contexts = [], g_next_handle = 2\<rparr> =
     Inr (invalid_context_response, \<lparr>g_contexts = [], g_next_handle = 2\<rparr>) \<and>
   generate 7 ''hello'' 16 \<lparr>g_contexts = [], g_next_handle = 2\<rparr> =
     Inr (invalid_context_response, \<lparr>g_contexts = [], g_next_handle = 2\<rparr>)"
proof -
  have r: "run slot_front [InitModel ''a.gguf'', FreeModel 1] initial =
     Inr ([Handle 1, Void], \<lparr>g_contexts = [], g_next_handle = 2\<rparr>)"
    by (simp add: run_eval)
  have freed: "1 \<notin> live_in slot_front [InitModel ''a.gguf'', FreeModel 1] initial {}"
    by (simp add: run_eval)
  have never: "7 \<notin> set (issued_in slot_front [InitModel ''a.gguf'', FreeModel 1] initial)"
    by (simp add: run_eval)
  have g1: "generate 1 ''hello'' 16 \<lparr>g_contexts = [], g_next_handle = 2\<rparr> =
     Inr (invalid_context_response, \<lparr>g_contexts = [], g_next_handle = 2\<rparr>)"
    by (rule generate_unregistered_handle [OF r]) (rule disjI2, rule freed)
  have g7: "generate 7 ''hello'' 16 \<lparr>g_contexts = [], g_next_handle = 2\<rparr> =
     Inr (invalid_context_response, \<lparr>g_contexts = [], g_next_handle = 2\<rparr>)"
    by (rule generate_unregistered_handle [OF r]) (rule disjI1, rule never)
  from r freed never g1 g7 show ?thesis by (intro conjI)
qed

text \<open>
  C2. After any history of calls from process start in which fewer than \<open>2^63 - 2\<close>
  handles have been issued (beyond that the counter's increment overflows), the handles
  issued so far are pairwise distinct, and a further \<open>initModel\<close> returns a strictly
  positive handle that no earlier call returned, with freed handles in between or not;
  the registry then holds an entry for it, and \<open>generate\<close> on it returns a text other
  than the invalid-context one.
\<close>

theorem initModel_fresh_handle:
  assumes run: "run slot cs initial = Inr (rs, s)"
    and few: "length (issued_in slot cs initial) < 2 ^ 63 - 2"
  shows "distinct (issued_in slot cs initial) \<and>
         (\<exists>h s'. initModel slot path s = Inr (h, s') \<and> 0 < sint h \<and>
            h \<notin> set (issued_in slot cs initial) \<and>
            map_of (g_contexts s') h = Some (newModelContext path) \<and>
            (\<forall>p n. \<exists>r. generate h p n s' = Inr (r, s') \<and> r \<noteq> invalid_context_response))"
proof -
  from run_inv [OF initial_inv run]
  have inv: "reg_inv s"
    and nxt: "sint (g_next_handle s) =
                sint (g_next_handle initial) + int (length (issued_in slot cs initial))"
    and iss: "\<forall>h \<in> set (issued_in slot cs initial). sint h < sint (g_next_handle s)"
    and dist: "distinct (issued_in slot cs initial)"
    by blast+
  have n1: "sint (g_next_handle s) = 1 + int (length (issued_in slot cs initial))"
    using nxt by (simp add: initial_def)
  have "length (issued_in slot cs initial) < 9223372036854775806" using few by simp
  then have "int (length (issued_in slot cs initial)) < 9223372036854775806" by linarith
  then have "sint (g_next_handle s) \<noteq> sint (0x7FFFFFFFFFFFFFFF :: 64 word)"
    using n1 by simp
  then have ne: "g_next_handle s \<noteq> 0x7FFFFFFFFFFFFFFF" by auto
  define h where "h = g_next_handle s"
  define s' where "s' = s\<lparr>g_next_handle := g_next_handle s + 1,
      g_contexts := umap_store slot (g_next_handle s) (newModelContext path) (g_contexts s)\<rparr>"
  have init: "initModel slot path s = Inr (h, s')"
    using ne by (simp add: initModel_Inr h_def s'_def)
  have pos: "0 < sint h" using n1 by (simp add: h_def)
  have fresh: "h \<notin> set (issued_in slot cs initial)" using iss by (auto simp: h_def)
  have reg: "map_of (g_contexts s') h = Some (newModelContext path)"
    by (rule initModel_inv(6) [OF inv init])
  have "\<forall>p n. \<exists>r. generate h p n s' = Inr (r, s') \<and> r \<noteq> invalid_context_response"
    using generate_registered [OF reg] by blast
  with dist init pos fresh reg show ?thesis by blast
qed

theorem initModel_fresh_handle_witness:
  "run slot_front [InitModel ''a.gguf'', FreeModel 1] initial =
     Inr ([Handle 1, Void], \<lparr>g_contexts = [], g_next_handle = 2\<rparr>) \<and>
   length (issued_in slot_front [InitModel ''a.gguf'', FreeModel 1] initial) < 2 ^ 63 - 2 \<and>
   issued_in slot_front [InitModel ''a.gguf'', FreeModel 1] initial = [1] \<and>
   initModel slot_front ''b.gguf'' \<lparr>g_contexts = [], g_next_handle = 2\<rparr> =
     Inr (2, \<lparr>g_contexts = [(2, newModelContext ''b.gguf'')], g_next_handle = 3\<rparr>) \<and>
   (\<exists>h s'. initModel slot_front ''b.gguf'' \<lparr>g_contexts = [], g_next_handle = 2\<rparr> = Inr (h, s') \<and>
      0 < sint h \<and> h \<notin> set (issued_in slot_front [InitModel ''a.gguf'', FreeModel 1] initial) \<and>
      map_of (g_contexts s') h = Some (newModelContext ''b.gguf'') \<and>
      (\<forall>p n. \<exists>r. generate h p n s' = Inr (r, s') \<and> r \<noteq> invalid_context_response))"
proof -
  have r: "run slot_front [InitModel ''a.gguf'', FreeModel 1] initial =
     Inr ([Handle 1, Void], \<lparr>g_contexts = [], g_next_handle = 2\<rparr>)"
    by (simp add: run_eval)
  have i: "issued_in slot_front [InitModel ''a.gguf'', FreeModel 1] initial = [1]"
    by (simp add: run_eval)
  have f: "length (issued_in slot_front [InitModel ''a.gguf'', FreeModel 1] initial) < 2 ^ 63 - 2"
    unfolding i by simp
  have n: "initModel slot_front ''b.gguf'' \<lparr>g_contexts = [], g_next_handle = 2\<rparr> =
     Inr (2, \<lparr>g_contexts = [(2, newModelContext ''b.gguf'')], g_next_handle = 3\<rparr>)"
    by (simp add: run_eval)
  from initModel_fresh_handle [OF r f, of "''b.gguf''"] r i f n show ?thesis by blast
qed

section \<open>The legacy interface\<close>

text \<open>
  C7. For every prompt, \<open>maxTokens\<close> and \<open>temperature\<close>, \<open>nativeGenerateWithCallback\<close>
  returns the response that \<open>nativeGenerate\<close> returns with \<open>topP\<close> 0.9 on the same
  registry, which it leaves as it was, and it hands nothing to the callback on the way:
  the response is delivered once, as the value returned.
\<close>

theorem callback_variant_forwards:
  "\<exists>r. nativeGenerate p n t 0x3F666666 s = Inr (r, s) \<and>
        nativeGenerateWithCallback p n t cb s = Inr ((r, []), s)"
proof -
  obtain r where "nativeGenerate p n t 0x3F666666 s = Inr (r, s)"
    using nativeGenerate_total by blast
  then show ?thesis by (simp add: nativeGenerateWithCallback_def)
qed

lemmas classify_eval = stub_response_def find_str_def npos_def tolower_def

theorem callback_variant_forwards_witness:
  "nativeGenerate ''my status'' 16 0x3F333333 0x3F666666 one_model = Inr (progress_response, one_model) \<and>
   nativeGenerateWithCallback ''my status'' 16 0x3F333333 7 one_model =
     Inr ((progress_response, []), one_model)"
proof -
  have g: "nativeGenerate ''my status'' 16 0x3F333333 0x3F666666 one_model =
      Inr (progress_response, one_model)"
    by (simp add: nativeGenerate_def generate_def one_model_def classify_eval)
  from callback_variant_forwards [of "''my status''" 16 "0x3F333333" one_model 7] g
  show ?thesis by auto
qed

text \<open>
  C6 as stated fails. With the new node of a table linked in at the front, two
  \<open>initModel\<close> calls leave handle 2 first in the table, and \<open>nativeGetModelInfo\<close>
  reports the context of handle 2 although handle 1 is registered and smaller.
\<close>

theorem legacy_current_is_smallest_counterexample:
  "run slot_front [InitModel ''a.gguf'', InitModel ''b.gguf'', GetModelInfo] initial =
     Inr ([Handle 1, Handle 2, Text (model_info (newModelContext ''b.gguf''))], two_models) \<and>
   map_of (g_contexts two_models) 1 = Some (newModelContext ''a.gguf'') \<and>
   sint (1 :: jlong) < sint (2 :: jlong) \<and>
   model_info (newModelContext ''b.gguf'') \<noteq> model_info (newModelContext ''a.gguf'')"
  by (simp add: run_eval two_models_def nativeGetModelInfo_def model_info_def)

text \<open>
  C6, amended. After any history of calls from process start that leaves a context
  registered, \<open>nativeGenerate\<close> and \<open>nativeGetModelInfo\<close> both resolve the current
  context as the first node of the table, \<open>g_contexts.begin()\<close>: a registered handle,
  the same for both, wherever the table has put it.
\<close>

theorem legacy_current_is_begin:
  assumes run: "run slot cs initial = Inr (rs, s)" and ne: "g_contexts s \<noteq> []"
  shows "\<exists>k ctx t. g_contexts s = (k, ctx) # t \<and> map_of (g_contexts s) k = Some ctx \<and>
           nativeGenerate p n tm tp s = generate k p n s \<and>
           nativeGetModelInfo s = model_info ctx"
proof -
  from ne obtain k ctx t where g: "g_contexts s = (k, ctx) # t"
    by (cases "g_contexts s") auto
  have "reg_inv s" using run_inv [OF initial_inv run] by blast
  then have "0 < sint k" by (simp add: reg_inv_def handles_of_def g)
  then have "k \<noteq> 0" by auto
  then have "nativeGenerate p n tm tp s = generate k p n s"
    by (simp add: nativeGenerate_def g)
  moreover have "nativeGetModelInfo s = model_info ctx"
    by (simp add: nativeGetModelInfo_def g)
  moreover have "map_of (g_contexts s) k = Some ctx" by (simp add: g)
  ultimately show ?thesis using g by blast
qed

theorem legacy_current_is_begin_witness:
  "run slot_front [InitModel ''a.gguf'', InitModel ''b.gguf''] initial =
     Inr ([Handle 1, Handle 2], two_models) \<and>
   g_contexts two_models \<noteq> [] \<and>
   (\<exists>k ctx t. g_contexts two_models = (k, ctx) # t \<and>
      map_of (g_contexts two_models) k = Some ctx \<and>
      nativeGenerate ''hello'' 16 0 0 two_models = generate k ''hello'' 16 two_models \<and>
      nativeGetModelInfo two_models = model_info ctx)"
proof -
  have r: "run slot_front [InitModel ''a.gguf'', InitModel ''b.gguf''] initial =
     Inr ([Handle 1, Handle 2], two_models)"
    by (simp add: run_eval two_models_def)
  have n: "g_contexts two_models \<noteq> []" by (simp add: two_models_def)
  from legacy_current_is_begin [OF r n, of "''hello''" 16 0 0] r n show ?thesis by blast
qed

section \<open>The stub against the rules of the specification\<close>

lemma find_str_npos: "length s < npos \<Longrightarrow> (find_str s pat = npos) = (\<not> sublist pat s)"
  using find_str_sublist [of s pat] by blast

lemma stub_refines:
  assumes "length p < npos"
  shows "stub_response p = Inr (spec_response (spec_intent p) p)"
proof -
  have l: "length (map tolower p) < npos" using assms by simp
  show ?thesis
    unfolding stub_response_def spec_intent_def Let_def
    by (simp add: find_str_npos [OF l] quoted_or_spec [OF assms])
qed

lemma lex_create_task:
  assumes "list_all json_plain t"
  shows "json_lex (create_task_response t) = Some
    [TLBrace, TString ''action'', TColon, TString ''create_task'', TComma,
     TString ''message'', TColon, TString (''I'll add the task: '' @ t), TComma,
     TString ''data'', TColon, TLBrace,
     TString ''taskTitle'', TColon, TString t, TComma,
     TString ''dueDate'', TColon, TString ''today'', TComma,
     TString ''minutes'', TColon, TNumber ''30'', TRBrace, TRBrace]"
  using assms by (simp add: lex_eval create_task_response_def scan_string_plain)

lemma parse_create_task:
  assumes "list_all json_plain t"
  shows "parse_json (create_task_response t) = Some (JObject
     [(''action'', JString ''create_task''),
      (''message'', JString (''I'll add the task: '' @ t)),
      (''data'', JObject [(''taskTitle'', JString t), (''dueDate'', JString ''today''),
                          (''minutes'', JNumber ''30'')])])"
  by (simp add: parse_eval lex_create_task [OF assms])

lemma lex_complete_task:
  assumes "list_all json_plain t"
  shows "json_lex (complete_task_response t) = Some
    [TLBrace, TString ''action'', TColon, TString ''complete_task'', TComma,
     TString ''message'', TColon, TString ''Great job! I'll mark that as complete.'', TComma,
     TString ''data'', TColon, TLBrace,
     TString ''taskTitle'', TColon, TString t, TRBrace, TRBrace]"
  using assms by (simp add: lex_eval complete_task_response_def scan_string_plain)

lemma parse_complete_task:
  assumes "list_all json_plain t"
  shows "parse_json (complete_task_response t) = Some (JObject
     [(''action'', JString ''complete_task''),
      (''message'', JString ''Great job! I'll mark that as complete.''),
      (''data'', JObject [(''taskTitle'', JString t)])])"
  by (simp add: parse_eval lex_complete_task [OF assms])

lemma wf_create_task:
  "list_all json_plain t \<Longrightarrow> well_formed_response (create_task_response t)"
  by (simp add: schema_eval parse_create_task)

lemma wf_complete_task:
  "list_all json_plain t \<Longrightarrow> well_formed_response (complete_task_response t)"
  by (simp add: schema_eval parse_complete_task)

lemma parse_invalid:
  "parse_json invalid_context_response = Some (JObject
     [(''action'', JString ''reply''), (''message'', JString ''Error: Model not loaded''),
      (''data'', JObject [])])"
  by (simp add: lex_eval parse_eval invalid_context_response_def)

lemma parse_no_model:
  "parse_json no_model_response = Some (JObject
     [(''action'', JString ''reply''),
      (''message'', JString ''No model loaded. Please download a model first.''),
      (''data'', JObject [])])"
  by (simp add: lex_eval parse_eval no_model_response_def)

lemma parse_help:
  "parse_json help_response = Some (JObject
     [(''action'', JString ''reply''),
      (''message'', JString (''I can help you manage goals and tasks! Try saying: 'Create a goal to learn Python' or 'Add task review notes tomorrow'' @ [CHR 0x27])),
      (''data'', JObject [])])"
  by (simp add: lex_eval parse_eval help_response_def)

lemma parse_delete:
  "parse_json delete_response = Some (JObject
     [(''action'', JString ''reply''),
      (''message'', JString ''To delete an item, please specify exactly which goal or task you want to remove.''),
      (''data'', JObject [])])"
  by (simp add: lex_eval parse_eval delete_response_def)

lemma parse_progress:
  "parse_json progress_response = Some (JObject
     [(''action'', JString ''show_progress''),
      (''message'', JString ''Let me show you your progress summary!''),
      (''data'', JObject [])])"
  by (simp add: lex_eval parse_eval progress_response_def)

lemma parse_default:
  "parse_json default_response = Some (JObject
     [(''action'', JString ''reply''),
      (''message'', JString ''I'm your local AI assistant running on-device! I can help you create goals, add tasks, and track your progress. What would you like to do?''),
      (''data'', JObject [])])"
  by (simp add: lex_eval parse_eval default_response_def)

lemma wf_fixed:
  "well_formed_response invalid_context_response"
  "well_formed_response no_model_response"
  "well_formed_response help_response"
  "well_formed_response delete_response"
  "well_formed_response progress_response"
  "well_formed_response default_response"
  by (simp_all add: schema_eval parse_invalid parse_no_model parse_help parse_delete
      parse_progress parse_default)

section \<open>The classifier\<close>

text \<open>
  C3 as stated fails: on a registered handle, \<open>show my status\<close> gets the response of
  the list/show rule, whose action is \<open>reply\<close>, not \<open>show_progress\<close>.
\<close>

theorem show_my_status_counterexample:
  "run slot_front [InitModel ''a.gguf''] initial = Inr ([Handle 1], one_model) \<and>
   map_of (g_contexts one_model) 1 = Some (newModelContext ''a.gguf'') \<and>
   generate 1 ''show my status'' 16 one_model = Inr (list_response, one_model) \<and>
   action_of list_response = Some ''reply'' \<and>
   action_of list_response \<noteq> Some ''show_progress''"
proof -
  have r: "run slot_front [InitModel ''a.gguf''] initial = Inr ([Handle 1], one_model)"
    by (simp add: run_eval one_model_def)
  have g: "generate 1 ''show my status'' 16 one_model = Inr (list_response, one_model)"
    by (simp add: one_model_def generate_def classify_eval)
  have a: "action_of list_response = Some ''reply''"
    by (simp add: action_of_def parse_list_response json_field_def as_object_def
        as_string_def)
  show ?thesis using r g a by (simp add: one_model_def)
qed

text \<open>
  C3, amended. For a valid handle, \<open>generate\<close> on \<open>show my status\<close> returns the
  response of the list/show rule, with action \<open>reply\<close>: the prompt contains \<open>show\<close>,
  and that rule is tested before the one for \<open>status\<close>.
\<close>

theorem show_my_status_is_reply:
  assumes "map_of (g_contexts s) h = Some ctx"
  shows "generate h ''show my status'' n s = Inr (list_response, s) \<and>
         action_of list_response = Some ''reply''"
  using assms
  by (simp add: generate_def classify_eval action_of_def parse_list_response
      json_field_def as_object_def as_string_def)

theorem show_my_status_is_reply_witness:
  "map_of (g_contexts one_model) 1 = Some (newModelContext ''a.gguf'') \<and>
   generate 1 ''show my status'' 16 one_model = Inr (list_response, one_model) \<and>
   action_of list_response = Some ''reply''"
proof -
  have v: "map_of (g_contexts one_model) 1 = Some (newModelContext ''a.gguf'')"
    by (simp add: one_model_def)
  from show_my_status_is_reply [OF v, of 16] v show ?thesis by blast
qed

text \<open>The progress rule is reached by a prompt that has none of the earlier keywords.\<close>

lemma my_status_is_progress:
  assumes "map_of (g_contexts s) h = Some ctx"
  shows "generate h ''my status'' n s = Inr (progress_response, s) \<and>
         action_of progress_response = Some ''show_progress''"
  using assms
  by (simp add: generate_def classify_eval action_of_def parse_progress
      json_field_def as_object_def as_string_def)

lemmas intent_eval = spec_intent_def tolower_def sublist_Cons_right

lemma spec_title_between:
  assumes "p = a @ CHR 0x22 # t @ CHR 0x22 # r" "CHR 0x22 \<notin> set a" "CHR 0x22 \<notin> set t"
  shows "spec_title d p = t"
proof -
  have "dropWhile (\<lambda>c. c \<noteq> CHR 0x22) (a @ CHR 0x22 # t @ CHR 0x22 # r) = CHR 0x22 # t @ CHR 0x22 # r"
    using assms(2) by (induction a) auto
  then have dw: "drop 1 (dropWhile (\<lambda>c. c \<noteq> CHR 0x22) p) = t @ CHR 0x22 # r"
    by (simp add: assms(1))
  have tw: "takeWhile (\<lambda>c. c \<noteq> CHR 0x22) (t @ CHR 0x22 # r) = t"
    using assms(3) by (induction t) auto
  have "spec_between_quotes p = Some t"
    unfolding spec_between_quotes_def Let_def dw tw by simp
  then show ?thesis by (simp add: spec_title_def)
qed

lemma spec_title_default:
  assumes "length (filter (\<lambda>c. c = CHR 0x22) p) < 2"
  shows "spec_title d p = d"
proof (cases "spec_between_quotes p")
  case None
  then show ?thesis by (simp add: spec_title_def)
next
  case (Some t)
  let ?rest = "drop 1 (dropWhile (\<lambda>c. c \<noteq> CHR 0x22) p)"
  from Some have q2: "CHR 0x22 \<in> set ?rest"
    by (auto simp: spec_between_quotes_def Let_def split: if_splits)
  have ne: "dropWhile (\<lambda>c. c \<noteq> CHR 0x22) p \<noteq> []"
  proof
    assume e: "dropWhile (\<lambda>c. c \<noteq> CHR 0x22) p = []"
    from q2 show False unfolding e by simp
  qed
  then obtain x xs where dw: "dropWhile (\<lambda>c. c \<noteq> CHR 0x22) p = x # xs"
    by (cases "dropWhile (\<lambda>c. c \<noteq> CHR 0x22) p") auto
  have x: "x = CHR 0x22" using hd_dropWhile [OF ne] dw by simp
  have xs: "CHR 0x22 \<in> set xs" using q2 dw by simp
  have "p = takeWhile (\<lambda>c. c \<noteq> CHR 0x22) p @ x # xs"
    using takeWhile_dropWhile_id [of "\<lambda>c. c \<noteq> CHR 0x22" p] dw by simp
  then have eq: "length (filter (\<lambda>c. c = CHR 0x22) p) =
      length (filter (\<lambda>c. c = CHR 0x22) (takeWhile (\<lambda>c. c \<noteq> CHR 0x22) p)) +
      length (filter (\<lambda>c. c = CHR 0x22) (x # xs))"
    by (metis filter_append length_append)
  have c1: "length (filter (\<lambda>c. c = CHR 0x22) (x # xs)) =
      Suc (length (filter (\<lambda>c. c = CHR 0x22) xs))"
    using x by simp
  have "filter (\<lambda>c. c = CHR 0x22) xs \<noteq> []" using xs by (simp add: filter_empty_conv)
  then have c2: "1 \<le> length (filter (\<lambda>c. c = CHR 0x22) xs)"
    by (cases "filter (\<lambda>c. c = CHR 0x22) xs") auto
  from eq c1 c2 have "2 \<le> length (filter (\<lambda>c. c = CHR 0x22) p)" by linarith
  with assms show ?thesis by simp
qed

lemma generate_refines:
  assumes "map_of (g_contexts s) h = Some ctx" and "length p < npos"
  shows "generate h p n s = Inr (spec_response (spec_intent p) p, s)"
  using assms by (simp add: generate_def stub_refines)

lemma learn_spanish:
  "generate h ''Create a goal for \"Learn Spanish\"'' n s =
     (if map_of (g_contexts s) h = None then Inr (invalid_context_response, s)
      else Inr (create_goal_response ''Learn Spanish'', s))"
  by (simp add: generate_def classify_eval quoted_or_def find_chr_def size_add_def
      size_sub_def substr_def)

lemma learn_spanish_fields:
  "action_of (create_goal_response ''Learn Spanish'') = Some ''create_goal''"
  "data_field ''goalTitle'' (create_goal_response ''Learn Spanish'') =
     Some (JString ''Learn Spanish'')"
  by (simp_all add: action_of_def data_field_def parse_create_goal json_plain_def
      json_field_def as_object_def as_string_def)

text \<open>
  C4. On a valid handle, a prompt that falls under the create-goal, the create-task or
  the complete-task rule gets the response built from the title that the quote rule
  extracts, with the default \<open>New Goal\<close>, \<open>New Task\<close> or \<open>task\<close>: the text of the
  prompt as given, strictly between its first double quote and the next one, and the
  default when the prompt has fewer than two double quotes. The prompt
  \<open>Create a goal for "Learn Spanish"\<close> yields action \<open>create_goal\<close> with
  \<open>goalTitle\<close> equal to \<open>Learn Spanish\<close>.
\<close>

theorem quoted_title_extraction:
  assumes valid: "map_of (g_contexts s) h = Some ctx" and len: "length p < npos"
  shows "(spec_intent p = CreateGoal \<longrightarrow>
            generate h p n s = Inr (create_goal_response (spec_title ''New Goal'' p), s)) \<and>
         (spec_intent p = CreateTask \<longrightarrow>
            generate h p n s = Inr (create_task_response (spec_title ''New Task'' p), s)) \<and>
         (spec_intent p = CompleteTask \<longrightarrow>
            generate h p n s = Inr (complete_task_response (spec_title ''task'' p), s)) \<and>
         (\<forall>d a t r. p = a @ CHR 0x22 # t @ CHR 0x22 # r \<and> CHR 0x22 \<notin> set a \<and>
            CHR 0x22 \<notin> set t \<longrightarrow> spec_title d p = t) \<and>
         (\<forall>d. length (filter (\<lambda>c. c = CHR 0x22) p) < 2 \<longrightarrow> spec_title d p = d) \<and>
         generate h ''Create a goal for \"Learn Spanish\"'' n s =
           Inr (create_goal_response ''Learn Spanish'', s) \<and>
         action_of (create_goal_response ''Learn Spanish'') = Some ''create_goal'' \<and>
         data_field ''goalTitle'' (create_goal_response ''Learn Spanish'') =
           Some (JString ''Learn Spanish'')"
proof -
  note g = generate_refines [OF valid len, of n]
  have a: "spec_intent p = CreateGoal \<longrightarrow>
      generate h p n s = Inr (create_goal_response (spec_title ''New Goal'' p), s)"
    using g by auto
  have b: "spec_intent p = CreateTask \<longrightarrow>
      generate h p n s = Inr (create_task_response (spec_title ''New Task'' p), s)"
    using g by auto
  have c: "spec_intent p = CompleteTask \<longrightarrow>
      generate h p n s = Inr (complete_task_response (spec_title ''task'' p), s)"
    using g by auto
  have d: "\<forall>d a t r. p = a @ CHR 0x22 # t @ CHR 0x22 # r \<and> CHR 0x22 \<notin> set a \<and>
            CHR 0x22 \<notin> set t \<longrightarrow> spec_title d p = t"
    using spec_title_between by blast
  have e: "\<forall>d. length (filter (\<lambda>c. c = CHR 0x22) p) < 2 \<longrightarrow> spec_title d p = d"
    using spec_title_default by blast
  have f: "generate h ''Create a goal for \"Learn Spanish\"'' n s =
           Inr (create_goal_response ''Learn Spanish'', s)"
    using valid by (simp add: learn_spanish)
  from a b c d e f learn_spanish_fields show ?thesis by (intro conjI)
qed

theorem quoted_title_extraction_witness:
  "map_of (g_contexts one_model) 1 = Some (newModelContext ''a.gguf'') \<and>
   length ''Create a goal for \"Learn Spanish\"'' < npos \<and>
   spec_intent ''Create a goal for \"Learn Spanish\"'' = CreateGoal \<and>
   generate 1 ''Create a goal for \"Learn Spanish\"'' 16 one_model =
     Inr (create_goal_response ''Learn Spanish'', one_model) \<and>
   length ''add task'' < npos \<and> spec_intent ''add task'' = CreateTask \<and>
   length (filter (\<lambda>c. c = CHR 0x22) ''add task'') < 2 \<and>
   generate 1 ''add task'' 16 one_model = Inr (create_task_response ''New Task'', one_model) \<and>
   length ''mark \"report\" as done'' < npos \<and>
   spec_intent ''mark \"report\" as done'' = CompleteTask \<and>
   generate 1 ''mark \"report\" as done'' 16 one_model =
     Inr (complete_task_response ''report'', one_model)"
proof -
  have v: "map_of (g_contexts one_model) 1 = Some (newModelContext ''a.gguf'')"
    by (simp add: one_model_def)
  have l1: "length ''Create a goal for \"Learn Spanish\"'' < npos"
    and l2: "length ''add task'' < npos"
    and l3: "length ''mark \"report\" as done'' < npos"
    by (simp_all add: npos_def)
  have i1: "spec_intent ''Create a goal for \"Learn Spanish\"'' = CreateGoal"
    by (simp add: intent_eval)
  have i2: "spec_intent ''add task'' = CreateTask" by (simp add: intent_eval)
  have i3: "spec_intent ''mark \"report\" as done'' = CompleteTask" by (simp add: intent_eval)
  have q1: "''Create a goal for \"Learn Spanish\"'' =
      ''Create a goal for '' @ CHR 0x22 # ''Learn Spanish'' @ CHR 0x22 # [] \<and>
      CHR 0x22 \<notin> set ''Create a goal for '' \<and> CHR 0x22 \<notin> set ''Learn Spanish''"
    by simp
  have q2: "length (filter (\<lambda>c. c = CHR 0x22) ''add task'') < 2" by simp
  have q3: "''mark \"report\" as done'' = ''mark '' @ CHR 0x22 # ''report'' @ CHR 0x22 # '' as done'' \<and>
      CHR 0x22 \<notin> set ''mark '' \<and> CHR 0x22 \<notin> set ''report''"
    by simp
  note t1 = quoted_title_extraction [OF v l1, of 16]
  note t2 = quoted_title_extraction [OF v l2, of 16]
  note t3 = quoted_title_extraction [OF v l3, of 16]
  have s1: "spec_title ''New Goal'' ''Create a goal for \"Learn Spanish\"'' = ''Learn Spanish''"
    using t1 q1 by blast
  have s2: "spec_title ''New Task'' ''add task'' = ''New Task''" using t2 q2 by blast
  have s3: "spec_title ''task'' ''mark \"report\" as done'' = ''report''" using t3 q3 by blast
  have g1: "generate 1 ''Create a goal for \"Learn Spanish\"'' 16 one_model =
     Inr (create_goal_response ''Learn Spanish'', one_model)"
    using t1 i1 s1 by simp
  have g2: "generate 1 ''add task'' 16 one_model =
     Inr (create_task_response ''New Task'', one_model)"
    using t2 i2 s2 by simp
  have g3: "generate 1 ''mark \"report\" as done'' 16 one_model =
     Inr (complete_task_response ''report'', one_model)"
    using t3 i3 s3 by simp
  from v l1 i1 g1 l2 i2 q2 g2 l3 i3 g3 show ?thesis by (intro conjI)
qed

section \<open>The responses as JSON\<close>

text \<open>
  C5. Every text that \<open>generate\<close> and the legacy operations return is to parse as a
  JSON object with the fields \<open>action\<close>, \<open>message\<close> and \<open>data\<close>, whatever the quoted
  title contains; the source says as much of its return value (line 117, and the
  comments of lines 151 and 156). The code does not keep to it: the title is copied into
  the text as it stands, with no escaping. After \<open>initModel\<close>, on the handle it
  returned, the prompt \<open>create goal\<close> followed by a backslash between double quotes,
  whose title is that one backslash, gets a text that is not JSON: the backslash takes
  the closing quote of the message with it.
\<close>

theorem backslash_title_response_not_json:
  "run slot_front [InitModel ''a.gguf''] initial = Inr ([Handle 1], one_model) \<and>
   map_of (g_contexts one_model) 1 = Some (newModelContext ''a.gguf'') \<and>
   generate 1 (''create goal '' @ [CHR 0x22, CHR 0x5C, CHR 0x22]) 16 one_model =
     Inr (create_goal_response [CHR 0x5C], one_model) \<and>
   parse_json (create_goal_response [CHR 0x5C]) = None \<and>
   \<not> well_formed_response (create_goal_response [CHR 0x5C])"
proof -
  have p: "parse_json (create_goal_response [CHR 0x5C]) = None"
    by (simp add: lex_eval parse_eval create_goal_response_def)
  have g: "generate 1 (''create goal '' @ [CHR 0x22, CHR 0x5C, CHR 0x22]) 16 one_model =
     Inr (create_goal_response [CHR 0x5C], one_model)"
    by (simp add: one_model_def generate_def classify_eval quoted_or_def find_chr_def
        size_add_def size_sub_def substr_def)
  have r: "run slot_front [InitModel ''a.gguf''] initial = Inr ([Handle 1], one_model)"
    by (simp add: run_eval one_model_def)
  show ?thesis using p g r by (simp add: well_formed_response_def one_model_def)
qed

end
